theory Spec2Isabelle
  imports Complex_Main "HOL-Library.Word" "HOL-Library.Char_ord" "HOL-Library.List_Lexorder"
    "HOL-Library.Sublist"
begin

section \<open>Vocabulary shared by the two packages\<close>

text \<open>
  The repository holds two Go packages with the same layout: \<open>skiplist\<close> (the baseline
  index) and \<open>stashlist\<close> (the adaptive index).  Both are pointer structures, so the
  model keeps an explicit store: an element lives at an address (a natural number), a
  \<open>*Element\<close> is \<open>nat option\<close> (\<open>None\<close> is \<open>nil\<close>), and a \<open>*elementNode\<close> is a
  \<open>node_ref\<close>: the list's own embedded node or the node embedded in an element.
  Keys are Go strings, compared bytewise (the lexicographic order on \<open>char list\<close>);
  values are byte slices.  A call that panics returns \<open>Inl\<close>; a loop that never ends
  returns \<open>None\<close>.
\<close>

type_synonym byte = "8 word"

datatype node_ref = Head | Elem nat

datatype error = Panic string | IndexOutOfRange | NilDereference

definition bindE :: "error + 'a \<Rightarrow> ('a \<Rightarrow> error + 'b) \<Rightarrow> error + 'b" where
  "bindE x f = (case x of Inl e \<Rightarrow> Inl e | Inr a \<Rightarrow> f a)"

definition DefaultMaxLevel :: int where
  "DefaultMaxLevel = 18"

definition DefaultProbability :: real where
  "DefaultProbability = 1 / exp 1"

text \<open>\<open>probabilityTable\<close>: entry \<open>i - 1\<close> is \<open>probability ^ (i - 1)\<close> for \<open>i = 1 .. MaxLevel\<close>
  (floating point is read as real arithmetic).\<close>

definition probabilityTable :: "real \<Rightarrow> int \<Rightarrow> real list" where
  "probabilityTable p MaxLevel = map (\<lambda>i. p ^ (i - 1)) [1..<Suc (nat MaxLevel)]"

text \<open>The loop of \<open>randLevel\<close>: \<open>for level < maxLevel && r < probTable[level] { level++ }\<close>.\<close>

function randLevel_loop :: "int \<Rightarrow> real list \<Rightarrow> real \<Rightarrow> int \<Rightarrow> error + int" where
  "randLevel_loop maxL tbl r lvl =
     (if lvl < maxL then
        (if 0 \<le> lvl \<and> nat lvl < length tbl then
           (if r < tbl ! nat lvl then randLevel_loop maxL tbl r (lvl + 1) else Inr lvl)
         else Inl IndexOutOfRange)
      else Inr lvl)"
  by pat_completeness auto
termination
  by (relation "measure (\<lambda>(maxL, tbl, r, lvl). nat (maxL - lvl))") auto

declare randLevel_loop.simps [simp del]

text \<open>A \<open>for i := range xs\<close> loop whose body may panic.\<close>

fun for_range :: "(nat \<Rightarrow> 's \<Rightarrow> error + 's) \<Rightarrow> nat list \<Rightarrow> 's \<Rightarrow> error + 's" where
  "for_range body [] s = Inr s"
| "for_range body (i # js) s = (case body i s of Inl e \<Rightarrow> Inl e | Inr s' \<Rightarrow> for_range body js s')"

section \<open>Package skiplist: the baseline index\<close>

record elementNode =
  "next" :: "nat option list"

record Element = elementNode +
  key :: string
  "value" :: "byte list"

text \<open>
  The list embeds an \<open>elementNode\<close> (the head).  \<open>heap\<close> and \<open>allocated\<close> are the store:
  \<open>heap a\<close> is the element at address \<open>a\<close>, and addresses below \<open>allocated\<close> have been
  handed out by \<open>Add\<close>.  The random source is not part of the state: \<open>Add\<close> takes the
  value that \<open>randSource.Int63()\<close> returns.
\<close>

record SkipList = elementNode +
  maxLevel :: int
  Length :: int
  probability :: real
  probTable :: "real list"
  prevNodesCache :: "node_ref option list"
  heap :: "nat \<Rightarrow> Element"
  allocated :: nat

fun node_next :: "SkipList \<Rightarrow> node_ref \<Rightarrow> nat option list" where
  "node_next list Head = next list"
| "node_next list (Elem a) = next (heap list a)"

text \<open>\<open>n.next[i] = v\<close>\<close>

fun set_node_next :: "SkipList \<Rightarrow> node_ref \<Rightarrow> nat \<Rightarrow> nat option \<Rightarrow> error + SkipList" where
  "set_node_next list Head i v =
     (if i < length (next list) then Inr (list\<lparr>next := (next list)[i := v]\<rparr>)
      else Inl IndexOutOfRange)"
| "set_node_next list (Elem a) i v =
     (if i < length (next (heap list a))
      then Inr (list\<lparr>heap := (heap list)(a := (heap list a)\<lparr>next := (next (heap list a))[i := v]\<rparr>)\<rparr>)
      else Inl IndexOutOfRange)"

text \<open>The inner loop of every descent:
  \<open>for next != nil && key > next.key { prev = &next.elementNode; next = next.next[i] }\<close>.\<close>

partial_function (option) advance ::
  "SkipList \<Rightarrow> string \<Rightarrow> nat \<Rightarrow> node_ref \<Rightarrow> nat option \<Rightarrow> (error + node_ref \<times> nat option) option" where
  "advance list k i prev nxt =
     (case nxt of
        None \<Rightarrow> Some (Inr (prev, None))
      | Some a \<Rightarrow>
          if key (heap list a) < k then
            (if i < length (next (heap list a))
             then advance list k i (Elem a) (next (heap list a) ! i)
             else Some (Inl IndexOutOfRange))
          else Some (Inr (prev, Some a)))"

text \<open>\<open>getPrevElementNodes\<close>: \<open>descend (Suc i)\<close> is the body of the outer loop at level
  \<open>i\<close>, followed by the levels below; the result is the list with \<open>prevs\<close> (which is
  \<open>list.prevNodesCache\<close>) filled in.\<close>

fun descend :: "nat \<Rightarrow> string \<Rightarrow> node_ref \<Rightarrow> SkipList \<Rightarrow> (error + SkipList) option" where
  "descend 0 k prev list = Some (Inr list)"
| "descend (Suc i) k prev list =
     (if i < length (node_next list prev) then
        (case advance list k i prev (node_next list prev ! i) of
           None \<Rightarrow> None
         | Some (Inl e) \<Rightarrow> Some (Inl e)
         | Some (Inr (prev', nxt)) \<Rightarrow>
             if i < length (prevNodesCache list)
             then descend i k prev' (list\<lparr>prevNodesCache := (prevNodesCache list)[i := Some prev']\<rparr>)
             else Some (Inl IndexOutOfRange))
      else Some (Inl IndexOutOfRange))"

definition getPrevElementNodes :: "SkipList \<Rightarrow> string \<Rightarrow> (error + SkipList) option" where
  "getPrevElementNodes list k = descend (nat (maxLevel list)) k Head list"

text \<open>\<open>prevs[i]\<close> as a node to dereference, \<open>prevs[i].next[i]\<close>, and
  \<open>prevs[i].next[i] = v\<close>.\<close>

definition prev_at :: "SkipList \<Rightarrow> nat \<Rightarrow> error + node_ref" where
  "prev_at list i =
     (if i < length (prevNodesCache list)
      then (case prevNodesCache list ! i of None \<Rightarrow> Inl NilDereference | Some p \<Rightarrow> Inr p)
      else Inl IndexOutOfRange)"

definition prev_next :: "SkipList \<Rightarrow> nat \<Rightarrow> error + nat option" where
  "prev_next list i =
     bindE (prev_at list i) (\<lambda>p.
       if i < length (node_next list p) then Inr (node_next list p ! i) else Inl IndexOutOfRange)"

definition set_prev_next :: "SkipList \<Rightarrow> nat \<Rightarrow> nat option \<Rightarrow> error + SkipList" where
  "set_prev_next list i v = bindE (prev_at list i) (\<lambda>p. set_node_next list p i v)"

text \<open>The match test \<open>element != nil && element.key <= key\<close>.\<close>

definition is_match :: "SkipList \<Rightarrow> nat option \<Rightarrow> string \<Rightarrow> bool" where
  "is_match list element k = (case element of None \<Rightarrow> False | Some a \<Rightarrow> key (heap list a) \<le> k)"

definition randLevel :: "SkipList \<Rightarrow> nat \<Rightarrow> error + int" where
  "randLevel list r63 = randLevel_loop (maxLevel list) (probTable list) (real r63 / 2 ^ 63) 1"

text \<open>The body of the loop of \<open>Add\<close>:
  \<open>element.next[i] = prevs[i].next[i]; prevs[i].next[i] = element\<close>.\<close>

definition link_at :: "nat \<Rightarrow> nat \<Rightarrow> SkipList \<Rightarrow> error + SkipList" where
  "link_at a i list =
     bindE (prev_next list i) (\<lambda>n.
     bindE (set_node_next list (Elem a) i n) (\<lambda>l1.
       set_prev_next l1 i (Some a)))"

definition Add :: "SkipList \<Rightarrow> string \<Rightarrow> byte list \<Rightarrow> nat \<Rightarrow> (error + SkipList) option" where
  "Add list k v r63 =
     (case getPrevElementNodes list k of
        None \<Rightarrow> None
      | Some (Inl e) \<Rightarrow> Some (Inl e)
      | Some (Inr l1) \<Rightarrow> Some (
          bindE (prev_next l1 0) (\<lambda>element.
            if is_match l1 element k then
              Inr (l1\<lparr>heap := (heap l1)(the element := (heap l1 (the element))\<lparr>value := v\<rparr>)\<rparr>)
            else
              bindE (randLevel l1 r63) (\<lambda>lvl.
                let a = allocated l1;
                    l2 = l1\<lparr>heap := (heap l1)(a := \<lparr>next = replicate (nat lvl) None, key = k, value = v\<rparr>),
                            allocated := Suc a\<rparr>
                in bindE (for_range (link_at a) [0..<length (next (heap l2 a))] l2) (\<lambda>l3.
                     Inr (l3\<lparr>Length := Length l3 + 1\<rparr>))))))"

text \<open>\<open>Get\<close> has a descent of its own, which keeps no predecessors.\<close>

fun search :: "nat \<Rightarrow> string \<Rightarrow> node_ref \<Rightarrow> nat option \<Rightarrow> SkipList \<Rightarrow> (error + nat option) option" where
  "search 0 k prev nxt list = Some (Inr nxt)"
| "search (Suc i) k prev nxt list =
     (if i < length (node_next list prev) then
        (case advance list k i prev (node_next list prev ! i) of
           None \<Rightarrow> None
         | Some (Inl e) \<Rightarrow> Some (Inl e)
         | Some (Inr (prev', nxt')) \<Rightarrow> search i k prev' nxt' list)
      else Some (Inl IndexOutOfRange))"

definition Get :: "SkipList \<Rightarrow> string \<Rightarrow> (error + byte list \<times> bool) option" where
  "Get list k =
     (case search (nat (maxLevel list)) k Head None list of
        None \<Rightarrow> None
      | Some (Inl e) \<Rightarrow> Some (Inl e)
      | Some (Inr nxt) \<Rightarrow>
          Some (Inr (if is_match list nxt k then (value (heap list (the nxt)), True) else ([], False))))"

text \<open>The body of the loop of \<open>Remove\<close>: \<open>prevs[k].next[k] = v\<close> for \<open>k, v\<close> ranging over
  \<open>element.next\<close>.\<close>

definition unlink_at :: "nat \<Rightarrow> nat \<Rightarrow> SkipList \<Rightarrow> error + SkipList" where
  "unlink_at a i list =
     (if i < length (next (heap list a)) then set_prev_next list i (next (heap list a) ! i)
      else Inl IndexOutOfRange)"

definition Remove :: "SkipList \<Rightarrow> string \<Rightarrow> (error + SkipList \<times> nat option) option" where
  "Remove list k =
     (case getPrevElementNodes list k of
        None \<Rightarrow> None
      | Some (Inl e) \<Rightarrow> Some (Inl e)
      | Some (Inr l1) \<Rightarrow> Some (
          bindE (prev_next l1 0) (\<lambda>element.
            if is_match l1 element k then
              bindE (for_range (unlink_at (the element)) [0..<length (next (heap l1 (the element)))] l1) (\<lambda>l2.
                Inr (l2\<lparr>Length := Length l2 - 1\<rparr>, element))
            else Inr (l1, None))))"

definition SetProbability :: "SkipList \<Rightarrow> real \<Rightarrow> SkipList" where
  "SetProbability list newProbability =
     list\<lparr>probability := newProbability,
          probTable := probabilityTable newProbability (maxLevel list)\<rparr>"

definition NewWithMaxLevel :: "int \<Rightarrow> error + SkipList" where
  "NewWithMaxLevel m =
     (if m < 1 \<or> m > 64 then Inl (Panic ''maxLevel for a SkipList must be a positive integer <= 64'')
      else Inr \<lparr>next = replicate (nat m) None,
                maxLevel = m,
                Length = 0,
                probability = DefaultProbability,
                probTable = probabilityTable DefaultProbability m,
                prevNodesCache = replicate (nat m) None,
                heap = (\<lambda>a. \<lparr>next = [], key = [], value = []\<rparr>),
                allocated = 0\<rparr>)"

definition NewSkipList :: "error + SkipList" where
  "NewSkipList = NewWithMaxLevel DefaultMaxLevel"

section \<open>Package stashlist: the adaptive index\<close>

text \<open>
  The adaptive package declares the same types with two more fields in \<open>elementNode\<close>.
  Its names carry a prefix here (\<open>snext\<close> is its \<open>next\<close>, \<open>stash_Add\<close> its \<open>Add\<close>, and
  so on); \<open>level\<close> and \<open>visited\<close> exist only in this package.
\<close>

record stash_elementNode =
  snext :: "nat option list"
  level :: int
  visited :: bool

record stash_Element = stash_elementNode +
  skey :: string
  svalue :: "byte list"

record StashList = stash_elementNode +
  smaxLevel :: int
  sLength :: int
  sprobability :: real
  sprobTable :: "real list"
  sprevNodesCache :: "node_ref option list"
  sheap :: "nat \<Rightarrow> stash_Element"
  sallocated :: nat

fun stash_node_next :: "StashList \<Rightarrow> node_ref \<Rightarrow> nat option list" where
  "stash_node_next list Head = snext list"
| "stash_node_next list (Elem a) = snext (sheap list a)"

fun stash_set_node_next :: "StashList \<Rightarrow> node_ref \<Rightarrow> nat \<Rightarrow> nat option \<Rightarrow> error + StashList" where
  "stash_set_node_next list Head i v =
     (if i < length (snext list) then Inr (list\<lparr>snext := (snext list)[i := v]\<rparr>)
      else Inl IndexOutOfRange)"
| "stash_set_node_next list (Elem a) i v =
     (if i < length (snext (sheap list a))
      then Inr (list\<lparr>sheap := (sheap list)(a := (sheap list a)\<lparr>snext := (snext (sheap list a))[i := v]\<rparr>)\<rparr>)
      else Inl IndexOutOfRange)"

text \<open>\<open>n.visited = b\<close> and \<open>n.level = n.level + d\<close> for the node of an element.\<close>

definition set_visited :: "StashList \<Rightarrow> nat \<Rightarrow> bool \<Rightarrow> StashList" where
  "set_visited list a b = list\<lparr>sheap := (sheap list)(a := (sheap list a)\<lparr>visited := b\<rparr>)\<rparr>"

definition set_level :: "StashList \<Rightarrow> nat \<Rightarrow> int \<Rightarrow> StashList" where
  "set_level list a n = list\<lparr>sheap := (sheap list)(a := (sheap list a)\<lparr>level := n\<rparr>)\<rparr>"

text \<open>The demotion inside the inner loop, with \<open>before\<close> the node left behind, \<open>a\<close> the
  node just entered (\<open>prev\<close>) and \<open>nxt\<close> its successor at level \<open>i\<close>:
  \<open>before.next[i] = next; prev.next[i] = nil; prev.level = prev.level - 1\<close>.\<close>

definition demote :: "StashList \<Rightarrow> nat \<Rightarrow> node_ref \<Rightarrow> nat \<Rightarrow> nat option \<Rightarrow> error + StashList" where
  "demote list i before a nxt =
     bindE (stash_set_node_next list before i nxt) (\<lambda>l1.
     bindE (stash_set_node_next l1 (Elem a) i None) (\<lambda>l2.
       Inr (set_level l2 a (level (sheap l2 a) - 1))))"

text \<open>The inner loop of \<open>getPrevElementNodes\<close>; a demotion ends it (\<open>break\<close>).  The result
  is the list and the final \<open>prev\<close>.\<close>

partial_function (option) stash_advance ::
  "StashList \<Rightarrow> string \<Rightarrow> nat \<Rightarrow> node_ref \<Rightarrow> nat option \<Rightarrow> (error + StashList \<times> node_ref) option" where
  "stash_advance list k i prev nxt =
     (case nxt of
        None \<Rightarrow> Some (Inr (list, prev))
      | Some a \<Rightarrow>
          if skey (sheap list a) < k then
            (if i < length (snext (sheap list a)) then
               (let nxt' = snext (sheap list a) ! i in
                if 0 < i \<and> nxt' \<noteq> None \<and> k = skey (sheap list (the nxt')) \<and> \<not> visited (sheap list a)
                then Some (bindE (demote list i prev a nxt') (\<lambda>l'. Inr (l', Elem a)))
                else stash_advance list k i (Elem a) nxt')
             else Some (Inl IndexOutOfRange))
          else Some (Inr (list, prev)))"

fun stash_descend :: "nat \<Rightarrow> string \<Rightarrow> node_ref \<Rightarrow> StashList \<Rightarrow> (error + StashList) option" where
  "stash_descend 0 k prev list = Some (Inr list)"
| "stash_descend (Suc i) k prev list =
     (if i < length (stash_node_next list prev) then
        (case stash_advance list k i prev (stash_node_next list prev ! i) of
           None \<Rightarrow> None
         | Some (Inl e) \<Rightarrow> Some (Inl e)
         | Some (Inr (l', prev')) \<Rightarrow>
             if i < length (sprevNodesCache l')
             then stash_descend i k prev' (l'\<lparr>sprevNodesCache := (sprevNodesCache l')[i := Some prev']\<rparr>)
             else Some (Inl IndexOutOfRange))
      else Some (Inl IndexOutOfRange))"

definition stash_getPrevElementNodes :: "StashList \<Rightarrow> string \<Rightarrow> (error + StashList) option" where
  "stash_getPrevElementNodes list k = stash_descend (nat (smaxLevel list)) k Head list"

definition stash_prev_at :: "StashList \<Rightarrow> int \<Rightarrow> error + node_ref" where
  "stash_prev_at list i =
     (if 0 \<le> i \<and> nat i < length (sprevNodesCache list)
      then (case sprevNodesCache list ! nat i of None \<Rightarrow> Inl NilDereference | Some p \<Rightarrow> Inr p)
      else Inl IndexOutOfRange)"

definition stash_prev_next :: "StashList \<Rightarrow> int \<Rightarrow> error + nat option" where
  "stash_prev_next list i =
     bindE (stash_prev_at list i) (\<lambda>p.
       if nat i < length (stash_node_next list p) then Inr (stash_node_next list p ! nat i)
       else Inl IndexOutOfRange)"

definition stash_set_prev_next :: "StashList \<Rightarrow> int \<Rightarrow> nat option \<Rightarrow> error + StashList" where
  "stash_set_prev_next list i v = bindE (stash_prev_at list i) (\<lambda>p. stash_set_node_next list p (nat i) v)"

definition stash_is_match :: "StashList \<Rightarrow> nat option \<Rightarrow> string \<Rightarrow> bool" where
  "stash_is_match list element k =
     (case element of None \<Rightarrow> False | Some a \<Rightarrow> skey (sheap list a) \<le> k)"

definition stash_randLevel :: "StashList \<Rightarrow> nat \<Rightarrow> error + int" where
  "stash_randLevel list r63 = randLevel_loop (smaxLevel list) (sprobTable list) (real r63 / 2 ^ 63) 1"

text \<open>\<open>element.next[i] = prevs[i].next[i]; prevs[i].next[i] = element\<close>, the body of the
  insertion loop and the first two statements of a promotion.\<close>

definition stash_link_at :: "nat \<Rightarrow> int \<Rightarrow> StashList \<Rightarrow> error + StashList" where
  "stash_link_at a i list =
     bindE (stash_prev_next list i) (\<lambda>n.
     bindE (stash_set_node_next list (Elem a) (nat i) n) (\<lambda>l1.
       stash_set_prev_next l1 i (Some a)))"

text \<open>The promotion branch of \<open>Add\<close> for the matching element \<open>a\<close>, whose \<open>visited\<close>
  flag is set.  \<open>prevs[level]\<close> is read before the comparison with the head, so a level
  outside the cache panics.\<close>

definition promote :: "StashList \<Rightarrow> nat \<Rightarrow> error + StashList" where
  "promote list a =
     (let lvl = level (sheap list a) in
      if lvl < smaxLevel list then
        (if 0 \<le> lvl \<and> nat lvl < length (sprevNodesCache list) then
           (if sprevNodesCache list ! nat lvl \<noteq> Some Head then
              bindE (stash_link_at a lvl list) (\<lambda>l1.
              bindE (stash_prev_at l1 lvl) (\<lambda>p.
                let l2 = (case p of Head \<Rightarrow> l1\<lparr>visited := False\<rparr> | Elem b \<Rightarrow> set_visited l1 b False)
                in Inr (set_level l2 a (lvl + 1))))
            else Inr list)
         else Inl IndexOutOfRange)
      else Inr list)"

definition stash_Add :: "StashList \<Rightarrow> string \<Rightarrow> byte list \<Rightarrow> nat \<Rightarrow> (error + StashList) option" where
  "stash_Add list k v r63 =
     (case stash_getPrevElementNodes list k of
        None \<Rightarrow> None
      | Some (Inl e) \<Rightarrow> Some (Inl e)
      | Some (Inr l1) \<Rightarrow> Some (
          bindE (stash_prev_next l1 0) (\<lambda>element.
            if stash_is_match l1 element k then
              (let a = the element in
               bindE (if \<not> visited (sheap l1 a) then Inr (set_visited l1 a True) else promote l1 a) (\<lambda>l2.
                 Inr (l2\<lparr>sheap := (sheap l2)(a := (sheap l2 a)\<lparr>svalue := v\<rparr>)\<rparr>)))
            else
              bindE (stash_randLevel l1 r63) (\<lambda>lvl.
                let a = sallocated l1;
                    l2 = l1\<lparr>sheap := (sheap l1)(a :=
                              \<lparr>snext = replicate (nat (smaxLevel l1)) None, level = lvl,
                               visited = (lvl = 1), skey = k, svalue = v\<rparr>),
                            sallocated := Suc a\<rparr>
                in bindE (for_range (\<lambda>i. stash_link_at a (int i)) [0..<nat lvl] l2) (\<lambda>l3.
                     Inr (l3\<lparr>sLength := sLength l3 + 1\<rparr>))))))"

text \<open>The descent inside \<open>Get\<close> is a loop of its own, without the demotion.\<close>

partial_function (option) stash_walk ::
  "StashList \<Rightarrow> string \<Rightarrow> nat \<Rightarrow> node_ref \<Rightarrow> nat option \<Rightarrow> (error + node_ref \<times> nat option) option" where
  "stash_walk list k i prev nxt =
     (case nxt of
        None \<Rightarrow> Some (Inr (prev, None))
      | Some a \<Rightarrow>
          if skey (sheap list a) < k then
            (if i < length (snext (sheap list a))
             then stash_walk list k i (Elem a) (snext (sheap list a) ! i)
             else Some (Inl IndexOutOfRange))
          else Some (Inr (prev, Some a)))"

fun stash_search :: "nat \<Rightarrow> string \<Rightarrow> node_ref \<Rightarrow> nat option \<Rightarrow> StashList \<Rightarrow> (error + nat option) option" where
  "stash_search 0 k prev nxt list = Some (Inr nxt)"
| "stash_search (Suc i) k prev nxt list =
     (if i < length (stash_node_next list prev) then
        (case stash_walk list k i prev (stash_node_next list prev ! i) of
           None \<Rightarrow> None
         | Some (Inl e) \<Rightarrow> Some (Inl e)
         | Some (Inr (prev', nxt')) \<Rightarrow> stash_search i k prev' nxt' list)
      else Some (Inl IndexOutOfRange))"

definition stash_Get :: "StashList \<Rightarrow> string \<Rightarrow> (error + StashList \<times> byte list \<times> bool) option" where
  "stash_Get list k =
     (case stash_search (nat (smaxLevel list)) k Head None list of
        None \<Rightarrow> None
      | Some (Inl e) \<Rightarrow> Some (Inl e)
      | Some (Inr nxt) \<Rightarrow>
          Some (Inr (if stash_is_match list nxt k
                     then (set_visited list (the nxt) True, svalue (sheap list (the nxt)), True)
                     else (list, [], False))))"

definition stash_unlink_at :: "nat \<Rightarrow> nat \<Rightarrow> StashList \<Rightarrow> error + StashList" where
  "stash_unlink_at a i list =
     (if i < length (snext (sheap list a)) then stash_set_prev_next list (int i) (snext (sheap list a) ! i)
      else Inl IndexOutOfRange)"

definition stash_Remove :: "StashList \<Rightarrow> string \<Rightarrow> (error + StashList \<times> nat option) option" where
  "stash_Remove list k =
     (case stash_getPrevElementNodes list k of
        None \<Rightarrow> None
      | Some (Inl e) \<Rightarrow> Some (Inl e)
      | Some (Inr l1) \<Rightarrow> Some (
          bindE (stash_prev_next l1 0) (\<lambda>element.
            if stash_is_match l1 element k then
              bindE (for_range (stash_unlink_at (the element))
                       [0..<length (snext (sheap l1 (the element)))] l1) (\<lambda>l2.
                Inr (l2\<lparr>sLength := sLength l2 - 1\<rparr>, element))
            else Inr (l1, None))))"

definition stash_SetProbability :: "StashList \<Rightarrow> real \<Rightarrow> StashList" where
  "stash_SetProbability list newProbability =
     list\<lparr>sprobability := newProbability,
          sprobTable := probabilityTable newProbability (smaxLevel list)\<rparr>"

definition stash_NewWithMaxLevel :: "int \<Rightarrow> error + StashList" where
  "stash_NewWithMaxLevel m =
     (if m < 1 \<or> m > 64 then Inl (Panic ''maxLevel for a StashList must be a positive integer <= 64'')
      else Inr \<lparr>snext = replicate (nat m) None, level = m, visited = False,
                smaxLevel = m,
                sLength = 0,
                sprobability = DefaultProbability,
                sprobTable = probabilityTable DefaultProbability m,
                sprevNodesCache = replicate (nat m) None,
                sheap = (\<lambda>a. \<lparr>snext = [], level = 0, visited = False, skey = [], svalue = []\<rparr>),
                sallocated = 0\<rparr>)"

definition NewStashList :: "error + StashList" where
  "NewStashList = stash_NewWithMaxLevel DefaultMaxLevel"

section \<open>Sequences of calls and what can be observed of a list\<close>

text \<open>
  A call of the interface, with the number that \<open>randSource.Int63()\<close> returns should the
  call draw a level.
\<close>

datatype op = OpAdd string "byte list" nat | OpGet string | OpRemove string

text \<open>
  One call and a sequence of calls on the baseline index, and a sequence of calls on a new
  index of the given \<open>maxLevel\<close>.  A panic ends the sequence, and a call that does not
  return leaves no result.
\<close>

fun step :: "SkipList \<Rightarrow> op \<Rightarrow> (error + SkipList) option" where
  "step list (OpAdd k v r63) = Add list k v r63"
| "step list (OpGet k) = map_option (map_sum id (\<lambda>r. list)) (Get list k)"
| "step list (OpRemove k) = map_option (map_sum id fst) (Remove list k)"

fun steps :: "op list \<Rightarrow> SkipList \<Rightarrow> (error + SkipList) option" where
  "steps [] list = Some (Inr list)"
| "steps (x # xs) list =
     (case step list x of
        None \<Rightarrow> None
      | Some (Inl e) \<Rightarrow> Some (Inl e)
      | Some (Inr l') \<Rightarrow> steps xs l')"

definition run :: "int \<Rightarrow> op list \<Rightarrow> (error + SkipList) option" where
  "run m ops = (case NewWithMaxLevel m of Inl e \<Rightarrow> Some (Inl e) | Inr l \<Rightarrow> steps ops l)"

text \<open>The same for the adaptive index.\<close>

fun stash_step :: "StashList \<Rightarrow> op \<Rightarrow> (error + StashList) option" where
  "stash_step list (OpAdd k v r63) = stash_Add list k v r63"
| "stash_step list (OpGet k) = map_option (map_sum id fst) (stash_Get list k)"
| "stash_step list (OpRemove k) = map_option (map_sum id fst) (stash_Remove list k)"

fun stash_steps :: "op list \<Rightarrow> StashList \<Rightarrow> (error + StashList) option" where
  "stash_steps [] list = Some (Inr list)"
| "stash_steps (x # xs) list =
     (case stash_step list x of
        None \<Rightarrow> None
      | Some (Inl e) \<Rightarrow> Some (Inl e)
      | Some (Inr l') \<Rightarrow> stash_steps xs l')"

definition stash_run :: "int \<Rightarrow> op list \<Rightarrow> (error + StashList) option" where
  "stash_run m ops =
     (case stash_NewWithMaxLevel m of Inl e \<Rightarrow> Some (Inl e) | Inr l \<Rightarrow> stash_steps ops l)"

text \<open>
  An observation of the list that a sequence of calls leaves, a closing \<open>Get\<close>, and a closing
  descent of \<open>getPrevElementNodes\<close>.
\<close>

definition observe :: "(StashList \<Rightarrow> 'a) \<Rightarrow> (error + StashList) option \<Rightarrow> (error + 'a) option" where
  "observe f r = map_option (map_sum id f) r"

definition then_Get :: "(error + StashList) option \<Rightarrow> string \<Rightarrow> (error + byte list \<times> bool) option" where
  "then_Get r k =
     (case r of
        None \<Rightarrow> None
      | Some (Inl e) \<Rightarrow> Some (Inl e)
      | Some (Inr l) \<Rightarrow> map_option (map_sum id snd) (stash_Get l k))"

definition then_descent :: "(error + StashList) option \<Rightarrow> string \<Rightarrow> (error + StashList) option" where
  "then_descent r k =
     (case r of
        None \<Rightarrow> None
      | Some (Inl e) \<Rightarrow> Some (Inl e)
      | Some (Inr l) \<Rightarrow> stash_getPrevElementNodes l k)"

text \<open>
  The list that a sequence of calls leaves; the empty record stands for a sequence that
  panics or does not return.
\<close>

definition result :: "(error + SkipList) option \<Rightarrow> SkipList" where
  "result r =
     (case r of
        Some (Inr l) \<Rightarrow> l
      | _ \<Rightarrow> \<lparr>next = [], maxLevel = 0, Length = 0, probability = 0, probTable = [],
              prevNodesCache = [], heap = (\<lambda>a. \<lparr>next = [], key = [], value = []\<rparr>), allocated = 0\<rparr>)"

definition stash_result :: "(error + StashList) option \<Rightarrow> StashList" where
  "stash_result r =
     (case r of
        Some (Inr l) \<Rightarrow> l
      | _ \<Rightarrow> \<lparr>snext = [], level = 0, visited = False, smaxLevel = 0, sLength = 0,
              sprobability = 0, sprobTable = [], sprevNodesCache = [],
              sheap = (\<lambda>a. \<lparr>snext = [], level = 0, visited = False, skey = [], svalue = []\<rparr>),
              sallocated = 0\<rparr>)"

text \<open>
  The elements linked at level \<open>i\<close>, read off the forward links from the head.  No path
  without a cycle is longer than the number of elements ever created, which bounds the
  traversal.
\<close>

fun follow :: "SkipList \<Rightarrow> nat \<Rightarrow> nat \<Rightarrow> nat option \<Rightarrow> nat list" where
  "follow list i 0 p = []"
| "follow list i (Suc n) p =
     (case p of None \<Rightarrow> []
      | Some a \<Rightarrow> a # (if i < length (next (heap list a)) then follow list i n (next (heap list a) ! i) else []))"

definition level_chain :: "SkipList \<Rightarrow> nat \<Rightarrow> nat list" where
  "level_chain list i = follow list i (allocated list) (next list ! i)"

fun stash_follow :: "StashList \<Rightarrow> nat \<Rightarrow> nat \<Rightarrow> nat option \<Rightarrow> nat list" where
  "stash_follow list i 0 p = []"
| "stash_follow list i (Suc n) p =
     (case p of
        None \<Rightarrow> []
      | Some a \<Rightarrow> a # (if i < length (snext (sheap list a))
                       then stash_follow list i n (snext (sheap list a) ! i) else []))"

definition stash_level_chain :: "StashList \<Rightarrow> nat \<Rightarrow> nat list" where
  "stash_level_chain list i = stash_follow list i (sallocated list) (snext list ! i)"

text \<open>The baseline index as a finite map, read off level 0.\<close>

definition lookup :: "SkipList \<Rightarrow> string \<Rightarrow> byte list option" where
  "lookup list k =
     map_option (\<lambda>a. value (heap list a)) (find (\<lambda>a. key (heap list a) = k) (level_chain list 0))"

text \<open>Whether a call writes the key \<open>k\<close>.\<close>

fun writes :: "op \<Rightarrow> string \<Rightarrow> bool" where
  "writes (OpAdd k' v r63) k = (k' = k)"
| "writes (OpGet k') k = False"
| "writes (OpRemove k') k = (k' = k)"

text \<open>
  The lists that the exported functions build from a constructor.  \<open>Get\<close> of the baseline
  index changes nothing, so it needs no rule.
\<close>

inductive reachable :: "SkipList \<Rightarrow> bool" where
  reachable_New: "NewWithMaxLevel m = Inr list \<Longrightarrow> reachable list"
| reachable_Add: "reachable list \<Longrightarrow> Add list k v r63 = Some (Inr list') \<Longrightarrow> reachable list'"
| reachable_Remove: "reachable list \<Longrightarrow> Remove list k = Some (Inr (list', e)) \<Longrightarrow> reachable list'"
| reachable_SetProbability: "reachable list \<Longrightarrow> reachable (SetProbability list p)"

inductive stash_reachable :: "StashList \<Rightarrow> bool" where
  stash_reachable_New: "stash_NewWithMaxLevel m = Inr l \<Longrightarrow> stash_reachable l"
| stash_reachable_Add: "stash_reachable l \<Longrightarrow> stash_Add l k v r63 = Some (Inr l') \<Longrightarrow> stash_reachable l'"
| stash_reachable_Get: "stash_reachable l \<Longrightarrow> stash_Get l k = Some (Inr (l', v, found)) \<Longrightarrow> stash_reachable l'"
| stash_reachable_Remove: "stash_reachable l \<Longrightarrow> stash_Remove l k = Some (Inr (l', e)) \<Longrightarrow> stash_reachable l'"
| stash_reachable_SetProbability: "stash_reachable l \<Longrightarrow> stash_reachable (stash_SetProbability l p)"

text \<open>Lists of one and two elements, and what a third call makes of them.\<close>

definition skip_one :: SkipList where
  "skip_one = result (run 2 [OpAdd ''a'' [1] (2 ^ 62)])"

definition skip_two :: SkipList where
  "skip_two = result (run 2 [OpAdd ''a'' [1] (2 ^ 62), OpAdd ''b'' [2] 0])"

definition skip_three :: SkipList where
  "skip_three = result (run 2 [OpAdd ''a'' [1] (2 ^ 62), OpAdd ''b'' [2] 0, OpRemove ''a''])"

definition stash_one :: StashList where
  "stash_one = stash_result (stash_run 2 [OpAdd ''a'' [1] 0])"

definition stash_two :: StashList where
  "stash_two = stash_result (stash_run 2 [OpAdd ''a'' [1] 0, OpAdd ''b'' [2] (2 ^ 62)])"

definition stash_three :: StashList where
  "stash_three = stash_result (stash_run 2 [OpAdd ''a'' [1] 0, OpAdd ''b'' [2] (2 ^ 62), OpAdd ''b'' [3] 0])"

definition stash_four :: StashList where
  "stash_four = stash_result (stash_run 2 [OpAdd ''a'' [1] 0, OpAdd ''b'' [2] (2 ^ 62), OpRemove ''a''])"

section \<open>The invariant of the baseline index\<close>

text \<open>
  \<open>height\<close> is the length of an element's link array.  \<open>path list i p xs q\<close> holds when the
  level-\<open>i\<close> links lead from the pointer \<open>p\<close> through exactly the elements \<open>xs\<close> to the
  pointer \<open>q\<close>, every element of \<open>xs\<close> having a slot \<open>i\<close>.
\<close>

definition height :: "SkipList \<Rightarrow> nat \<Rightarrow> nat" where
  "height list a = length (next (heap list a))"

fun path :: "SkipList \<Rightarrow> nat \<Rightarrow> nat option \<Rightarrow> nat list \<Rightarrow> nat option \<Rightarrow> bool" where
  "path list i p [] q = (p = q)"
| "path list i p (a # as) q =
     (p = Some a \<and> i < height list a \<and> path list i (next (heap list a) ! i) as q)"

definition at_level :: "SkipList \<Rightarrow> nat \<Rightarrow> nat list \<Rightarrow> nat list" where
  "at_level list i xs = filter (\<lambda>a. i < height list a) xs"

definition last_ref :: "node_ref \<Rightarrow> nat list \<Rightarrow> node_ref" where
  "last_ref prev xs = (if xs = [] then prev else Elem (last xs))"

definition first_ptr :: "nat list \<Rightarrow> nat option" where
  "first_ptr xs = (case xs of [] \<Rightarrow> None | a # _ \<Rightarrow> Some a)"

text \<open>
  The invariant, for the sequence \<open>xs\<close> of the addresses linked at level 0: keys increase
  strictly along \<open>xs\<close>, and level \<open>i\<close> links exactly the elements of \<open>xs\<close> that have a slot
  \<open>i\<close>, in the order of \<open>xs\<close>.
\<close>

definition skiplist_inv :: "SkipList \<Rightarrow> nat list \<Rightarrow> bool" where
  "skiplist_inv list xs \<longleftrightarrow>
     1 \<le> maxLevel list \<and> maxLevel list \<le> 64 \<and>
     length (next list) = nat (maxLevel list) \<and>
     length (prevNodesCache list) = nat (maxLevel list) \<and>
     length (probTable list) = nat (maxLevel list) \<and>
     (\<forall>a \<in> set xs. a < allocated list \<and> 1 \<le> height list a \<and> height list a \<le> nat (maxLevel list)) \<and>
     sorted_wrt (<) (map (\<lambda>a. key (heap list a)) xs) \<and>
     (\<forall>i < nat (maxLevel list). path list i (next list ! i) (at_level list i xs) None) \<and>
     Length list = int (length xs)"

text \<open>
  The elements below the key \<open>k\<close> and the others, and from them the predecessor that a
  descent records at level \<open>i\<close> and the pointer that this predecessor holds there.
\<close>

definition lower :: "SkipList \<Rightarrow> string \<Rightarrow> nat list \<Rightarrow> nat list" where
  "lower list k xs = takeWhile (\<lambda>a. key (heap list a) < k) xs"

definition upper :: "SkipList \<Rightarrow> string \<Rightarrow> nat list \<Rightarrow> nat list" where
  "upper list k xs = dropWhile (\<lambda>a. key (heap list a) < k) xs"

definition pred_at :: "SkipList \<Rightarrow> string \<Rightarrow> nat list \<Rightarrow> nat \<Rightarrow> node_ref" where
  "pred_at list k xs i = last_ref Head (at_level list i (lower list k xs))"

definition succ_at :: "SkipList \<Rightarrow> string \<Rightarrow> nat list \<Rightarrow> nat \<Rightarrow> nat option" where
  "succ_at list k xs i = first_ptr (at_level list i (upper list k xs))"

text \<open>The element that the match test accepts, if any.\<close>

definition hit :: "SkipList \<Rightarrow> string \<Rightarrow> nat list \<Rightarrow> nat option" where
  "hit list k xs = find (\<lambda>a. key (heap list a) = k) xs"

text \<open>
  Two lists that differ in the links of level \<open>n\<close> only, and two lists that differ in links
  only.
\<close>

definition level_frame :: "nat \<Rightarrow> SkipList \<Rightarrow> SkipList \<Rightarrow> bool" where
  "level_frame n l l' \<longleftrightarrow>
     maxLevel l' = maxLevel l \<and> Length l' = Length l \<and> probability l' = probability l \<and>
     probTable l' = probTable l \<and> prevNodesCache l' = prevNodesCache l \<and>
     allocated l' = allocated l \<and> length (next l') = length (next l) \<and>
     (\<forall>j. j \<noteq> n \<longrightarrow> next l' ! j = next l ! j) \<and>
     (\<forall>b. key (heap l' b) = key (heap l b) \<and> value (heap l' b) = value (heap l b) \<and>
          height l' b = height l b \<and>
          (\<forall>j. j \<noteq> n \<longrightarrow> next (heap l' b) ! j = next (heap l b) ! j))"

definition frame :: "SkipList \<Rightarrow> SkipList \<Rightarrow> bool" where
  "frame l l' \<longleftrightarrow>
     maxLevel l' = maxLevel l \<and> Length l' = Length l \<and> probability l' = probability l \<and>
     probTable l' = probTable l \<and> prevNodesCache l' = prevNodesCache l \<and>
     allocated l' = allocated l \<and> length (next l') = length (next l) \<and>
     (\<forall>b. key (heap l' b) = key (heap l b) \<and> value (heap l' b) = value (heap l b) \<and>
          height l' b = height l b)"

section \<open>What the operations of the adaptive index keep\<close>

text \<open>Two lists that differ only in forward links (the arrays keep their lengths).\<close>

definition links_only :: "StashList \<Rightarrow> StashList \<Rightarrow> bool" where
  "links_only l l' \<longleftrightarrow>
     smaxLevel l' = smaxLevel l \<and> sLength l' = sLength l \<and> sprobability l' = sprobability l \<and>
     sprobTable l' = sprobTable l \<and> sallocated l' = sallocated l \<and>
     level l' = level l \<and> visited l' = visited l \<and>
     sprevNodesCache l' = sprevNodesCache l \<and>
     length (snext l') = length (snext l) \<and>
     (\<forall>a. skey (sheap l' a) = skey (sheap l a) \<and> svalue (sheap l' a) = svalue (sheap l a) \<and>
          visited (sheap l' a) = visited (sheap l a) \<and> level (sheap l' a) = level (sheap l a) \<and>
          length (snext (sheap l' a)) = length (snext (sheap l a)))"

text \<open>
  What a descent may change: forward links, the level counters (downwards only) and the
  scratch buffer.
\<close>

definition descent_frame :: "StashList \<Rightarrow> StashList \<Rightarrow> bool" where
  "descent_frame l l' \<longleftrightarrow>
     smaxLevel l' = smaxLevel l \<and> sLength l' = sLength l \<and> sprobability l' = sprobability l \<and>
     sprobTable l' = sprobTable l \<and> sallocated l' = sallocated l \<and>
     level l' = level l \<and> visited l' = visited l \<and>
     length (sprevNodesCache l') = length (sprevNodesCache l) \<and>
     length (snext l') = length (snext l) \<and>
     (\<forall>a. skey (sheap l' a) = skey (sheap l a) \<and> svalue (sheap l' a) = svalue (sheap l a) \<and>
          visited (sheap l' a) = visited (sheap l a) \<and> level (sheap l' a) \<le> level (sheap l a) \<and>
          length (snext (sheap l' a)) = length (snext (sheap l a)))"

text \<open>The bounds that every list built from a constructor keeps.\<close>

definition stash_shape :: "StashList \<Rightarrow> bool" where
  "stash_shape l \<longleftrightarrow>
     1 \<le> smaxLevel l \<and> smaxLevel l \<le> 64 \<and>
     (\<forall>a. level (sheap l a) \<le> smaxLevel l) \<and>
     (\<forall>a < sallocated l. length (snext (sheap l a)) = nat (smaxLevel l))"

text \<open>
  The list after the allocation of the new element in \<open>Add\<close>, of level \<open>lvl\<close>, before it is
  linked.
\<close>

definition fresh_element :: "StashList \<Rightarrow> string \<Rightarrow> byte list \<Rightarrow> int \<Rightarrow> StashList" where
  "fresh_element l1 k v lvl =
     l1\<lparr>sheap := (sheap l1)(sallocated l1 :=
              \<lparr>snext = replicate (nat (smaxLevel l1)) None, level = lvl,
               visited = (lvl = 1), skey = k, svalue = v\<rparr>),
         sallocated := Suc (sallocated l1)\<rparr>"

text \<open>
  The link of a node at a level (\<open>nil\<close> where the node has no such slot), and the key of a
  node compared with a string; the head is below every key.
\<close>

definition stash_link :: "StashList \<Rightarrow> node_ref \<Rightarrow> nat \<Rightarrow> nat option" where
  "stash_link l p i = (if i < length (stash_node_next l p) then stash_node_next l p ! i else None)"

definition key_le :: "StashList \<Rightarrow> node_ref \<Rightarrow> string \<Rightarrow> bool" where
  "key_le l p s = (case p of Head \<Rightarrow> True | Elem a \<Rightarrow> skey (sheap l a) \<le> s)"

definition key_below :: "StashList \<Rightarrow> node_ref \<Rightarrow> string \<Rightarrow> bool" where
  "key_below l p k = (case p of Head \<Rightarrow> True | Elem a \<Rightarrow> a < sallocated l \<and> skey (sheap l a) < k)"

text \<open>
  Every link leads to an element that was created, whose key is not below the key of the
  node that holds the link.
\<close>

definition stash_ordered :: "StashList \<Rightarrow> bool" where
  "stash_ordered l \<longleftrightarrow>
     length (sprevNodesCache l) = nat (smaxLevel l) \<and>
     (\<forall>p i b. stash_link l p i = Some b \<longrightarrow> b < sallocated l \<and> key_le l p (skey (sheap l b)))"

text \<open>
  What a descent for the key \<open>k\<close> records at level \<open>i\<close>: a node below \<open>k\<close> whose link at that
  level is \<open>nil\<close> or leads to a key not below \<open>k\<close>.
\<close>

definition finger :: "StashList \<Rightarrow> string \<Rightarrow> nat \<Rightarrow> bool" where
  "finger l k i \<longleftrightarrow>
     i < length (sprevNodesCache l) \<and>
     (\<exists>p. sprevNodesCache l ! i = Some p \<and> key_below l p k \<and>
          (\<forall>b. stash_link l p i = Some b \<longrightarrow> k \<le> skey (sheap l b)))"

section \<open>The baseline index: descents and updates under the invariant\<close>

subsection \<open>Chains of links\<close>

lemma path_append:
  "path list i p (xs @ ys) q = (\<exists>r. path list i p xs r \<and> path list i r ys q)"
  by (induction xs arbitrary: p) auto

lemma path_first: "path list i p xs None \<Longrightarrow> p = first_ptr xs"
  by (cases xs) (auto simp: first_ptr_def)

lemma path_snoc:
  "path list i p (xs @ [a]) q = (path list i p xs (Some a) \<and> i < height list a \<and> next (heap list a) ! i = q)"
  by (auto simp: path_append)

lemma path_frame:
  "(\<And>a. a \<in> set xs \<Longrightarrow> height l' a = height l a \<and> next (heap l' a) ! i = next (heap l a) ! i)
   \<Longrightarrow> path l' i p xs q = path l i p xs q"
  by (induction xs arbitrary: p) auto

lemma advance_path:
  assumes "path list i nxt ys q"
      and "\<And>a. a \<in> set ys \<Longrightarrow> key (heap list a) < k"
      and "\<And>b. q = Some b \<Longrightarrow> \<not> key (heap list b) < k"
  shows "advance list k i prev nxt = Some (Inr (last_ref prev ys, q))"
  using assms
proof (induction ys arbitrary: prev nxt)
  case Nil
  then show ?case
    by (cases q) (auto simp: advance.simps last_ref_def)
next
  case (Cons a ys)
  from Cons.prems have nxt: "nxt = Some a" and h: "i < height list a"
    and c: "path list i (next (heap list a) ! i) ys q" and ka: "key (heap list a) < k"
    by auto
  have "advance list k i (Elem a) (next (heap list a) ! i) = Some (Inr (last_ref (Elem a) ys, q))"
    using Cons.IH[OF c] Cons.prems by auto
  moreover have "last_ref (Elem a) ys = last_ref prev (a # ys)"
    by (simp add: last_ref_def)
  ultimately show ?case
    using nxt h ka by (subst advance.simps) (simp add: height_def)
qed

subsection \<open>Consequences of the invariant\<close>

lemma inv_sorted: "skiplist_inv list xs \<Longrightarrow> sorted_wrt (<) (map (\<lambda>a. key (heap list a)) xs)"
  by (simp add: skiplist_inv_def)

lemma inv_path: "skiplist_inv list xs \<Longrightarrow> i < nat (maxLevel list) \<Longrightarrow> path list i (next list ! i) (at_level list i xs) None"
  by (simp add: skiplist_inv_def)

lemma inv_elem:
  "skiplist_inv list xs \<Longrightarrow> a \<in> set xs \<Longrightarrow> a < allocated list \<and> 1 \<le> height list a \<and> height list a \<le> nat (maxLevel list)"
  by (simp add: skiplist_inv_def)

lemma inv_lengths:
  "skiplist_inv list xs \<Longrightarrow> 1 \<le> maxLevel list \<and> maxLevel list \<le> 64 \<and> length (next list) = nat (maxLevel list) \<and>
     length (prevNodesCache list) = nat (maxLevel list) \<and> length (probTable list) = nat (maxLevel list)"
  by (simp add: skiplist_inv_def)

lemma lower_upper: "lower list k xs @ upper list k xs = xs"
  by (simp add: lower_def upper_def)

lemma at_level_split:
  "at_level list i xs = at_level list i (lower list k xs) @ at_level list i (upper list k xs)"
  by (metis at_level_def filter_append lower_upper)

lemma lower_keys: "a \<in> set (lower list k xs) \<Longrightarrow> key (heap list a) < k"
  by (auto simp: lower_def dest: set_takeWhileD)

lemma upper_keys:
  assumes "sorted_wrt (<) (map (\<lambda>a. key (heap list a)) xs)" and "a \<in> set (upper list k xs)"
  shows "k \<le> key (heap list a)"
proof -
  obtain b bs where ub: "upper list k xs = b # bs"
    using assms(2) by (cases "upper list k xs") auto
  have nb: "\<not> key (heap list b) < k"
    using ub unfolding upper_def by (metis dropWhile_eq_Cons_conv)
  have "sorted_wrt (<) (map (\<lambda>a. key (heap list a)) (lower list k xs @ upper list k xs))"
    using assms(1) by (simp add: lower_upper)
  then have "sorted_wrt (<) (map (\<lambda>a. key (heap list a)) (b # bs))"
    by (simp add: sorted_wrt_append ub)
  then have "a = b \<or> key (heap list b) < key (heap list a)"
    using assms(2) ub by auto
  then show ?thesis using nb by auto
qed

lemma last_ref_filter_split:
  "\<exists>A B. ys = A @ B \<and> last_ref prev A = last_ref prev (filter Q ys)"
proof (cases "filter Q ys = []")
  case True
  then show ?thesis by (intro exI[of _ "[]"] exI[of _ ys]) (simp add: last_ref_def)
next
  case False
  then have "last (filter Q ys) \<in> set ys"
    by (metis filter_is_subset last_in_set subsetD)
  then obtain A B where "ys = A @ last (filter Q ys) # B"
    by (auto dest: split_list)
  then have "ys = (A @ [last (filter Q ys)]) @ B" by simp
  moreover have "last_ref prev (A @ [last (filter Q ys)]) = last_ref prev (filter Q ys)"
    using False by (simp add: last_ref_def)
  ultimately show ?thesis by blast
qed

lemma last_ref_append: "last_ref (last_ref prev A) B = last_ref prev (A @ B)"
  by (simp add: last_ref_def)

lemma path_end_ptr:
  "path list i (next list ! i) A r \<Longrightarrow> r = node_next list (last_ref Head A) ! i"
  by (cases A rule: rev_cases) (auto simp: last_ref_def path_snoc)

lemma at_level_Suc: "at_level list (Suc i) xs = filter (\<lambda>a. Suc i < height list a) (at_level list i xs)"
  by (auto simp: at_level_def intro: filter_cong)

lemma pred_length:
  assumes "skiplist_inv list xs" and "i < nat (maxLevel list)"
  shows "i < length (node_next list (pred_at list k xs (Suc i)))"
proof (cases "at_level list (Suc i) (lower list k xs) = []")
  case True
  then show ?thesis using assms by (simp add: pred_at_def last_ref_def skiplist_inv_def)
next
  case False
  then have "last (at_level list (Suc i) (lower list k xs)) \<in> set (at_level list (Suc i) (lower list k xs))"
    by simp
  then have "Suc i < height list (last (at_level list (Suc i) (lower list k xs)))"
    by (simp add: at_level_def)
  then show ?thesis using False by (simp add: pred_at_def last_ref_def height_def)
qed

subsection \<open>The descent finds the predecessors\<close>

lemma advance_level:
  assumes skiplist_inv: "skiplist_inv list xs" and i: "i < nat (maxLevel list)"
  shows "advance list k i (pred_at list k xs (Suc i)) (node_next list (pred_at list k xs (Suc i)) ! i)
         = Some (Inr (pred_at list k xs i, succ_at list k xs i))"
proof -
  let ?lo = "at_level list i (lower list k xs)"
  let ?hi = "at_level list i (upper list k xs)"
  obtain A B where AB: "?lo = A @ B"
    and A: "last_ref Head A = last_ref Head (filter (\<lambda>a. Suc i < height list a) ?lo)"
    using last_ref_filter_split by blast
  have A': "last_ref Head A = pred_at list k xs (Suc i)"
    using A by (simp add: pred_at_def at_level_Suc)
  have "path list i (next list ! i) (at_level list i xs) None"
    using skiplist_inv i by (rule inv_path)
  then have "path list i (next list ! i) (A @ B @ ?hi) None"
    using at_level_split[of list i xs k] AB by simp
  then obtain r q where r: "path list i (next list ! i) A r"
    and B: "path list i r B q" and q: "path list i q ?hi None"
    by (auto simp: path_append)
  have r': "r = node_next list (pred_at list k xs (Suc i)) ! i"
    using path_end_ptr[OF r] A' by simp
  have q': "q = succ_at list k xs i"
    using path_first[OF q] by (simp add: succ_at_def)
  have kB: "\<And>a. a \<in> set B \<Longrightarrow> key (heap list a) < k"
    using AB lower_keys[of _ list k xs] by (metis Un_iff at_level_def filter_is_subset set_append subsetD)
  have kq: "\<And>b. q = Some b \<Longrightarrow> \<not> key (heap list b) < k"
  proof -
    fix b assume "q = Some b"
    then have "b \<in> set ?hi" using q' by (auto simp: succ_at_def first_ptr_def split: list.splits)
    then have "b \<in> set (upper list k xs)" by (simp add: at_level_def)
    then have "k \<le> key (heap list b)" using upper_keys[OF inv_sorted[OF skiplist_inv]] by simp
    then show "\<not> key (heap list b) < k" by simp
  qed
  have "advance list k i (pred_at list k xs (Suc i)) r = Some (Inr (last_ref (pred_at list k xs (Suc i)) B, q))"
    by (rule advance_path[OF B kB kq])
  moreover have "last_ref (pred_at list k xs (Suc i)) B = pred_at list k xs i"
    using A' AB by (metis last_ref_append pred_at_def)
  ultimately show ?thesis using r' q' by simp
qed

lemma height_cache [simp]: "height (list\<lparr>prevNodesCache := c\<rparr>) a = height list a"
  by (simp add: height_def)

lemma path_cache [simp]: "path (list\<lparr>prevNodesCache := c\<rparr>) i p ys q = path list i p ys q"
  by (rule path_frame) simp

lemma at_level_cache [simp]: "at_level (list\<lparr>prevNodesCache := c\<rparr>) i ys = at_level list i ys"
  by (simp add: at_level_def)

lemma pred_cache [simp]: "pred_at (list\<lparr>prevNodesCache := c\<rparr>) k xs i = pred_at list k xs i"
  by (simp add: pred_at_def lower_def)

lemma succ_cache [simp]: "succ_at (list\<lparr>prevNodesCache := c\<rparr>) k xs i = succ_at list k xs i"
  by (simp add: succ_at_def upper_def)

lemma inv_cache: "skiplist_inv list xs \<Longrightarrow> length c = nat (maxLevel list) \<Longrightarrow> skiplist_inv (list\<lparr>prevNodesCache := c\<rparr>) xs"
  by (simp add: skiplist_inv_def)

lemma descend_inv:
  assumes "skiplist_inv list xs" and "n \<le> nat (maxLevel list)"
  shows "\<exists>c. descend n k (pred_at list k xs n) list = Some (Inr (list\<lparr>prevNodesCache := c\<rparr>)) \<and>
             length c = nat (maxLevel list) \<and>
             (\<forall>j<n. c ! j = Some (pred_at list k xs j)) \<and>
             (\<forall>j. n \<le> j \<longrightarrow> c ! j = prevNodesCache list ! j)"
  using assms
proof (induction n arbitrary: list)
  case 0
  then show ?case
    by (intro exI[of _ "prevNodesCache list"]) (simp add: inv_lengths)
next
  case (Suc i)
  let ?c = "(prevNodesCache list)[i := Some (pred_at list k xs i)]"
  let ?l = "list\<lparr>prevNodesCache := ?c\<rparr>"
  have i: "i < nat (maxLevel list)" using Suc.prems by simp
  have len: "length (prevNodesCache list) = nat (maxLevel list)"
    using Suc.prems inv_lengths by blast
  have skiplist_inv': "skiplist_inv ?l xs" using Suc.prems len by (simp add: inv_cache)
  obtain c where c: "descend i k (pred_at ?l k xs i) ?l = Some (Inr (?l\<lparr>prevNodesCache := c\<rparr>))"
    and lc: "length c = nat (maxLevel ?l)"
    and lo: "\<forall>j<i. c ! j = Some (pred_at ?l k xs j)"
    and up: "\<forall>j. i \<le> j \<longrightarrow> c ! j = prevNodesCache ?l ! j"
    using Suc.IH[OF skiplist_inv'] i by auto
  have step: "descend (Suc i) k (pred_at list k xs (Suc i)) list = descend i k (pred_at list k xs i) ?l"
    using pred_length[OF Suc.prems(1) i, of k] advance_level[OF Suc.prems(1) i, of k] i len
    by simp
  have "\<forall>j<Suc i. c ! j = Some (pred_at list k xs j)"
  proof (intro allI impI)
    fix j assume "j < Suc i"
    then consider "j < i" | "j = i" by linarith
    then show "c ! j = Some (pred_at list k xs j)"
    proof cases
      case 1 then show ?thesis using lo by simp
    next
      case 2 then show ?thesis using up i len by simp
    qed
  qed
  moreover have "\<forall>j. Suc i \<le> j \<longrightarrow> c ! j = prevNodesCache list ! j"
    using up by simp
  ultimately show ?case
    using step c lc by (intro exI[of _ c]) simp
qed

lemma getPrevElementNodes_inv:
  assumes "skiplist_inv list xs"
  shows "\<exists>c. getPrevElementNodes list k = Some (Inr (list\<lparr>prevNodesCache := c\<rparr>)) \<and>
             length c = nat (maxLevel list) \<and>
             (\<forall>j<nat (maxLevel list). c ! j = Some (pred_at list k xs j))"
proof -
  have "at_level list (nat (maxLevel list)) (lower list k xs) = []"
    using inv_elem[OF assms] lower_upper[of list k xs]
    by (auto simp: at_level_def filter_empty_conv) (metis Un_iff leD set_append)
  then have "pred_at list k xs (nat (maxLevel list)) = Head"
    by (simp add: pred_at_def last_ref_def)
  then show ?thesis
    using descend_inv[OF assms order_refl, of k] by (auto simp: getPrevElementNodes_def)
qed

lemma search_inv:
  assumes "skiplist_inv list xs" and "n \<le> nat (maxLevel list)"
  shows "search n k (pred_at list k xs n) nxt list = Some (Inr (if n = 0 then nxt else succ_at list k xs 0))"
  using assms
proof (induction n arbitrary: nxt)
  case 0
  then show ?case by simp
next
  case (Suc i)
  have i: "i < nat (maxLevel list)" using Suc.prems by simp
  have "search (Suc i) k (pred_at list k xs (Suc i)) nxt list = search i k (pred_at list k xs i) (succ_at list k xs i) list"
    using pred_length[OF Suc.prems(1) i, of k] advance_level[OF Suc.prems(1) i, of k] by simp
  then show ?case using Suc.IH[OF Suc.prems(1), of "succ_at list k xs i"] i by auto
qed

subsection \<open>Linking and unlinking one level\<close>

lemma path_height: "path l n p ys q \<Longrightarrow> a \<in> set ys \<Longrightarrow> n < height l a"
  by (induction ys arbitrary: p) auto

lemma level_frame_set_node_next:
  assumes "i < length (node_next l p)"
  shows "\<exists>l'. set_node_next l p i v = Inr l' \<and> level_frame i l l' \<and>
              node_next l' p = (node_next l p)[i := v] \<and>
              (\<forall>b. Elem b \<noteq> p \<longrightarrow> heap l' b = heap l b) \<and> (p \<noteq> Head \<longrightarrow> next l' = next l)"
  using assms by (cases p) (auto simp: level_frame_def height_def)

lemma level_frame_trans: "level_frame n l l1 \<Longrightarrow> level_frame n l1 l2 \<Longrightarrow> level_frame n l l2"
  by (simp add: level_frame_def)

lemma prev_next_eval:
  assumes "n < length (prevNodesCache l)" and "prevNodesCache l ! n = Some (last_ref Head A)"
      and "n < length (next l)" and "path l n (next l ! n) (A @ B) None"
  shows "n < length (node_next l (last_ref Head A))"
    and "prev_at l n = Inr (last_ref Head A)"
    and "prev_next l n = Inr (first_ptr B)"
proof -
  show len: "n < length (node_next l (last_ref Head A))"
  proof (cases A rule: rev_cases)
    case Nil then show ?thesis using assms by (simp add: last_ref_def)
  next
    case (snoc A' p)
    then have "n < height l p" using path_height[OF assms(4), of p] by simp
    then show ?thesis using snoc by (simp add: last_ref_def height_def)
  qed
  show pa: "prev_at l n = Inr (last_ref Head A)"
    using assms by (simp add: prev_at_def)
  obtain r where r: "path l n (next l ! n) A r" and B: "path l n r B None"
    using assms(4) by (auto simp: path_append)
  have "node_next l (last_ref Head A) ! n = first_ptr B"
    using path_end_ptr[OF r] path_first[OF B] by simp
  then show "prev_next l n = Inr (first_ptr B)"
    using pa len by (simp add: prev_next_def bindE_def)
qed

lemma path_relink:
  assumes c: "path l n (next l ! n) A r" and d: "distinct A"
      and upd: "node_next l' (last_ref Head A) = (node_next l (last_ref Head A))[n := q]"
      and len: "n < length (node_next l (last_ref Head A))"
      and same: "\<And>b. Elem b \<noteq> last_ref Head A \<Longrightarrow> b \<in> set A \<Longrightarrow>
                    height l' b = height l b \<and> next (heap l' b) ! n = next (heap l b) ! n"
      and hd: "last_ref Head A \<noteq> Head \<Longrightarrow> next l' ! n = next l ! n"
  shows "path l' n (next l' ! n) A q"
proof (cases A rule: rev_cases)
  case Nil
  then show ?thesis using upd len by (simp add: last_ref_def)
next
  case (snoc A' p)
  have p: "last_ref Head A = Elem p" using snoc by (simp add: last_ref_def)
  have "path l n (next l ! n) A' (Some p)" and hp: "n < height l p"
    using c snoc by (auto simp: path_snoc)
  moreover have "\<And>b. b \<in> set A' \<Longrightarrow> height l' b = height l b \<and> next (heap l' b) ! n = next (heap l b) ! n"
  proof -
    fix b assume b: "b \<in> set A'"
    then have "b \<noteq> p" and "b \<in> set A" using d snoc by auto
    then show "height l' b = height l b \<and> next (heap l' b) ! n = next (heap l b) ! n"
      using same[of b] p by simp
  qed
  ultimately have "path l' n (next l ! n) A' (Some p)"
    by (simp add: path_frame[of A' l' l n])
  moreover have "next (heap l' p) = (next (heap l p))[n := q]"
    using upd p by simp
  ultimately show ?thesis
    using hd[unfolded p] hp snoc by (simp add: path_snoc height_def)
qed

lemma link_at_step:
  assumes cache: "n < length (prevNodesCache l)" "prevNodesCache l ! n = Some (last_ref Head A)"
      and hd: "n < length (next l)"
      and ch: "path l n (next l ! n) (A @ B) None"
      and fresh: "a \<notin> set (A @ B)" and dist: "distinct (A @ B)"
      and ha: "n < height l a"
  shows "\<exists>l'. link_at a n l = Inr l' \<and> level_frame n l l' \<and>
              path l' n (next l' ! n) (A @ a # B) None"
proof -
  note pn = prev_next_eval[OF cache hd ch]
  obtain r where r: "path l n (next l ! n) A r" and B: "path l n r B None"
    using ch by (auto simp: path_append)
  have rB: "r = first_ptr B" using path_first[OF B] .
  obtain l1 where l1: "set_node_next l (Elem a) n (first_ptr B) = Inr l1"
    and f1: "level_frame n l l1"
    and a1: "node_next l1 (Elem a) = (node_next l (Elem a))[n := first_ptr B]"
    and o1: "\<forall>b. Elem b \<noteq> Elem a \<longrightarrow> heap l1 b = heap l b" and h1: "next l1 = next l"
    using level_frame_set_node_next[of n l "Elem a" "first_ptr B"] ha by (auto simp: height_def)
  have pa1: "prev_at l1 n = Inr (last_ref Head A)"
    using cache f1 by (simp add: prev_at_def level_frame_def)
  have na: "last_ref Head A \<noteq> Elem a"
    using fresh by (cases A rule: rev_cases) (auto simp: last_ref_def)
  have nn1: "node_next l1 (last_ref Head A) = node_next l (last_ref Head A)"
    using na o1 h1 by (cases "last_ref Head A") auto
  obtain l2 where l2: "set_node_next l1 (last_ref Head A) n (Some a) = Inr l2"
    and f2: "level_frame n l1 l2"
    and a2: "node_next l2 (last_ref Head A) = (node_next l1 (last_ref Head A))[n := Some a]"
    and o2: "\<forall>b. Elem b \<noteq> last_ref Head A \<longrightarrow> heap l2 b = heap l1 b"
    and h2: "last_ref Head A \<noteq> Head \<longrightarrow> next l2 = next l1"
    using level_frame_set_node_next[of n l1 "last_ref Head A" "Some a"] pn(1) nn1 by auto
  have res: "link_at a n l = Inr l2"
    using pn(3) l1 pa1 l2 by (simp add: link_at_def bindE_def set_prev_next_def)
  have fr: "level_frame n l l2" using f1 f2 by (rule level_frame_trans)
  have hts: "\<And>b. height l2 b = height l b" using fr by (simp add: level_frame_def)
  have c1: "path l2 n (next l2 ! n) A (Some a)"
  proof (rule path_relink[OF r])
    show "distinct A" using dist by simp
    show "node_next l2 (last_ref Head A) = (node_next l (last_ref Head A))[n := Some a]"
      using a2 nn1 by simp
    show "n < length (node_next l (last_ref Head A))" by (rule pn(1))
    show "height l2 b = height l b \<and> next (heap l2 b) ! n = next (heap l b) ! n"
      if "Elem b \<noteq> last_ref Head A" "b \<in> set A" for b
    proof -
      have "b \<noteq> a" using that fresh by auto
      then have "heap l2 b = heap l b" using that o1 o2 by simp
      then show ?thesis using hts by simp
    qed
    show "next l2 ! n = next l ! n" if "last_ref Head A \<noteq> Head"
      using that h2 h1 by simp
  qed
  have "heap l2 a = heap l1 a" using o2 na by auto
  then have na2: "next (heap l2 a) ! n = first_ptr B"
    using a1 ha by (simp add: height_def)
  have "\<And>b. b \<in> set B \<Longrightarrow> heap l2 b = heap l b"
  proof -
    fix b assume b: "b \<in> set B"
    have "Elem b \<noteq> last_ref Head A"
      using dist b by (cases A rule: rev_cases) (auto simp: last_ref_def)
    moreover have "b \<noteq> a" using fresh b by auto
    ultimately show "heap l2 b = heap l b" using o1 o2 by auto
  qed
  then have "path l2 n r B None = path l n r B None"
    by (intro path_frame) (simp add: height_def)
  then have c2: "path l2 n (Some a) (a # B) None"
    using B rB na2 ha hts by simp
  show ?thesis
    using res fr c1 c2 by (auto simp: path_append)
qed

lemma unlink_at_step:
  assumes cache: "n < length (prevNodesCache l)" "prevNodesCache l ! n = Some (last_ref Head A)"
      and hd: "n < length (next l)"
      and ch: "path l n (next l ! n) (A @ b # B) None"
      and dist: "distinct (A @ b # B)"
  shows "\<exists>l'. unlink_at b n l = Inr l' \<and> level_frame n l l' \<and>
              path l' n (next l' ! n) (A @ B) None"
proof -
  note pn = prev_next_eval[OF cache hd ch]
  obtain r where r: "path l n (next l ! n) A r" and bB: "path l n r (b # B) None"
    using ch by (auto simp: path_append)
  have hb: "n < height l b" and B: "path l n (next (heap l b) ! n) B None"
    using bB by auto
  obtain l2 where l2: "set_node_next l (last_ref Head A) n (next (heap l b) ! n) = Inr l2"
    and f2: "level_frame n l l2"
    and a2: "node_next l2 (last_ref Head A) = (node_next l (last_ref Head A))[n := next (heap l b) ! n]"
    and o2: "\<forall>c. Elem c \<noteq> last_ref Head A \<longrightarrow> heap l2 c = heap l c"
    and h2: "last_ref Head A \<noteq> Head \<longrightarrow> next l2 = next l"
    using level_frame_set_node_next[of n l "last_ref Head A" "next (heap l b) ! n"] pn(1) by auto
  have res: "unlink_at b n l = Inr l2"
    using hb pn(2) l2 by (simp add: unlink_at_def set_prev_next_def bindE_def height_def)
  have hts: "\<And>c. height l2 c = height l c" using f2 by (simp add: level_frame_def)
  have c1: "path l2 n (next l2 ! n) A (next (heap l b) ! n)"
  proof (rule path_relink[OF r])
    show "distinct A" using dist by simp
    show "node_next l2 (last_ref Head A) = (node_next l (last_ref Head A))[n := next (heap l b) ! n]"
      by (rule a2)
    show "n < length (node_next l (last_ref Head A))" by (rule pn(1))
    show "height l2 c = height l c \<and> next (heap l2 c) ! n = next (heap l c) ! n"
      if "Elem c \<noteq> last_ref Head A" "c \<in> set A" for c
      using that o2 hts by simp
    show "next l2 ! n = next l ! n" if "last_ref Head A \<noteq> Head"
      using that h2 by simp
  qed
  have "\<And>c. c \<in> set B \<Longrightarrow> heap l2 c = heap l c"
  proof -
    fix c assume c: "c \<in> set B"
    have "Elem c \<noteq> last_ref Head A"
      using dist c by (cases A rule: rev_cases) (auto simp: last_ref_def)
    then show "heap l2 c = heap l c" using o2 by auto
  qed
  then have "path l2 n (next (heap l b) ! n) B None = path l n (next (heap l b) ! n) B None"
    by (intro path_frame) (simp add: height_def)
  then have c2: "path l2 n (next (heap l b) ! n) B None"
    using B by simp
  show ?thesis
    using res f2 c1 c2 by (auto simp: path_append)
qed

lemma frame_refl: "frame l l"
  by (simp add: frame_def)

lemma frame_trans: "frame l l1 \<Longrightarrow> frame l1 l2 \<Longrightarrow> frame l l2"
  by (simp add: frame_def)

lemma level_frame_frame: "level_frame n l l' \<Longrightarrow> frame l l'"
  by (simp add: frame_def level_frame_def)

lemma level_frame_path:
  assumes "level_frame n l l'" and "j \<noteq> n"
  shows "path l' j (next l' ! j) ys q = path l j (next l ! j) ys q"
proof -
  have "path l' j (next l ! j) ys q = path l j (next l ! j) ys q"
    using assms by (intro path_frame) (simp add: level_frame_def)
  then show ?thesis using assms by (simp add: level_frame_def)
qed

subsection \<open>The loops of \<open>Add\<close> and \<open>Remove\<close>\<close>

lemma add_loop:
  assumes "n \<le> lvl" and "lvl \<le> M" and "length (prevNodesCache l) = M" and "length (next l) = M"
      and "\<forall>j<M. prevNodesCache l ! j = Some (last_ref Head (Lo j))"
      and "height l a = lvl"
      and "\<forall>j<M. a \<notin> set (Lo j @ Hi j) \<and> distinct (Lo j @ Hi j)"
      and "\<forall>j<M. path l j (next l ! j) (if j < n then Lo j @ a # Hi j else Lo j @ Hi j) None"
  shows "\<exists>l'. for_range (link_at a) [n..<lvl] l = Inr l' \<and> frame l l' \<and>
              (\<forall>j<M. path l' j (next l' ! j) (if j < lvl then Lo j @ a # Hi j else Lo j @ Hi j) None)"
  using assms
proof (induction "lvl - n" arbitrary: n l)
  case 0
  then have "n = lvl" by simp
  then show ?case using "0.prems" by (auto simp: frame_refl)
next
  case (Suc d)
  then have n: "n < lvl" and nM: "n < M" by auto
  have "path l n (next l ! n) (if n < n then Lo n @ a # Hi n else Lo n @ Hi n) None"
    using Suc.prems(8) nM by blast
  then have ch: "path l n (next l ! n) (Lo n @ Hi n) None"
    by simp
  obtain l1 where l1: "link_at a n l = Inr l1" and f1: "level_frame n l l1"
    and c1: "path l1 n (next l1 ! n) (Lo n @ a # Hi n) None"
    using link_at_step[of n l "Lo n" "Hi n" a] Suc.prems nM n ch by auto
  have fr1: "frame l l1" using f1 by (rule level_frame_frame)
  have chains1: "\<forall>j<M. path l1 j (next l1 ! j) (if j < Suc n then Lo j @ a # Hi j else Lo j @ Hi j) None"
  proof (intro allI impI)
    fix j assume j: "j < M"
    show "path l1 j (next l1 ! j) (if j < Suc n then Lo j @ a # Hi j else Lo j @ Hi j) None"
    proof (cases "j = n")
      case True then show ?thesis using c1 by simp
    next
      case False
      then have "(j < Suc n) = (j < n)" by auto
      then show ?thesis
        using level_frame_path[OF f1 False] Suc.prems(8) j by simp
    qed
  qed
  have "\<exists>l'. for_range (link_at a) [Suc n..<lvl] l1 = Inr l' \<and> frame l1 l' \<and>
              (\<forall>j<M. path l' j (next l' ! j) (if j < lvl then Lo j @ a # Hi j else Lo j @ Hi j) None)"
  proof (rule Suc.hyps(1))
    show "d = lvl - Suc n" using Suc.hyps(2) by simp
    show "Suc n \<le> lvl" using n by simp
    show "lvl \<le> M" by (rule Suc.prems(2))
    show "length (prevNodesCache l1) = M" using fr1 Suc.prems(3) by (simp add: frame_def)
    show "length (next l1) = M" using fr1 Suc.prems(4) by (simp add: frame_def)
    show "\<forall>j<M. prevNodesCache l1 ! j = Some (last_ref Head (Lo j))"
      using fr1 Suc.prems(5) by (simp add: frame_def)
    show "height l1 a = lvl" using fr1 Suc.prems(6) by (simp add: frame_def)
    show "\<forall>j<M. a \<notin> set (Lo j @ Hi j) \<and> distinct (Lo j @ Hi j)" by (rule Suc.prems(7))
    show "\<forall>j<M. path l1 j (next l1 ! j) (if j < Suc n then Lo j @ a # Hi j else Lo j @ Hi j) None"
      by (rule chains1)
  qed
  then obtain l' where "for_range (link_at a) [Suc n..<lvl] l1 = Inr l'" and "frame l1 l'"
    and "\<forall>j<M. path l' j (next l' ! j) (if j < lvl then Lo j @ a # Hi j else Lo j @ Hi j) None"
    by blast
  then show ?case
    using l1 fr1 n by (intro exI[of _ l']) (auto simp: upt_conv_Cons intro: frame_trans)
qed

lemma remove_loop:
  assumes "n \<le> lvl" and "lvl \<le> M" and "length (prevNodesCache l) = M" and "length (next l) = M"
      and "\<forall>j<M. prevNodesCache l ! j = Some (last_ref Head (Lo j))"
      and "height l b = lvl"
      and "\<forall>j<M. distinct (Lo j @ b # Hi j)"
      and "\<forall>j<M. path l j (next l ! j) (if j < n \<or> lvl \<le> j then Lo j @ Hi j else Lo j @ b # Hi j) None"
  shows "\<exists>l'. for_range (unlink_at b) [n..<lvl] l = Inr l' \<and> frame l l' \<and>
              (\<forall>j<M. path l' j (next l' ! j) (Lo j @ Hi j) None)"
  using assms
proof (induction "lvl - n" arbitrary: n l)
  case 0
  then have "\<And>j. j < n \<or> lvl \<le> j" by arith
  then have "\<forall>j<M. path l j (next l ! j) (Lo j @ Hi j) None"
    using "0.prems"(8) by simp
  moreover have "for_range (unlink_at b) [n..<lvl] l = Inr l" using 0 by simp
  ultimately show ?case using frame_refl by blast
next
  case (Suc d)
  then have n: "n < lvl" and nM: "n < M" by auto
  have "path l n (next l ! n) (if n < n \<or> lvl \<le> n then Lo n @ Hi n else Lo n @ b # Hi n) None"
    using Suc.prems(8) nM by blast
  then have ch: "path l n (next l ! n) (Lo n @ b # Hi n) None"
    using n by simp
  obtain l1 where l1: "unlink_at b n l = Inr l1" and f1: "level_frame n l l1"
    and c1: "path l1 n (next l1 ! n) (Lo n @ Hi n) None"
    using unlink_at_step[of n l "Lo n" b "Hi n"] Suc.prems nM ch by auto
  have fr1: "frame l l1" using f1 by (rule level_frame_frame)
  have chains1: "\<forall>j<M. path l1 j (next l1 ! j) (if j < Suc n \<or> lvl \<le> j then Lo j @ Hi j else Lo j @ b # Hi j) None"
  proof (intro allI impI)
    fix j assume j: "j < M"
    show "path l1 j (next l1 ! j) (if j < Suc n \<or> lvl \<le> j then Lo j @ Hi j else Lo j @ b # Hi j) None"
    proof (cases "j = n")
      case True then show ?thesis using c1 by simp
    next
      case False
      then have "(j < Suc n) = (j < n)" by auto
      then show ?thesis
        using level_frame_path[OF f1 False] Suc.prems(8) j by simp
    qed
  qed
  have "\<exists>l'. for_range (unlink_at b) [Suc n..<lvl] l1 = Inr l' \<and> frame l1 l' \<and>
              (\<forall>j<M. path l' j (next l' ! j) (Lo j @ Hi j) None)"
  proof (rule Suc.hyps(1))
    show "d = lvl - Suc n" using Suc.hyps(2) by simp
    show "Suc n \<le> lvl" using n by simp
    show "lvl \<le> M" by (rule Suc.prems(2))
    show "length (prevNodesCache l1) = M" using fr1 Suc.prems(3) by (simp add: frame_def)
    show "length (next l1) = M" using fr1 Suc.prems(4) by (simp add: frame_def)
    show "\<forall>j<M. prevNodesCache l1 ! j = Some (last_ref Head (Lo j))"
      using fr1 Suc.prems(5) by (simp add: frame_def)
    show "height l1 b = lvl" using fr1 Suc.prems(6) by (simp add: frame_def)
    show "\<forall>j<M. distinct (Lo j @ b # Hi j)" by (rule Suc.prems(7))
    show "\<forall>j<M. path l1 j (next l1 ! j) (if j < Suc n \<or> lvl \<le> j then Lo j @ Hi j else Lo j @ b # Hi j) None"
      by (rule chains1)
  qed
  then obtain l' where "for_range (unlink_at b) [Suc n..<lvl] l1 = Inr l'" and "frame l1 l'"
    and "\<forall>j<M. path l' j (next l' ! j) (Lo j @ Hi j) None"
    by blast
  then show ?case
    using l1 fr1 n by (intro exI[of _ l']) (auto simp: upt_conv_Cons intro: frame_trans)
qed

subsection \<open>The drawn level\<close>

lemma randLevel_loop_range:
  assumes "length tbl = nat maxL" and "1 \<le> lvl" and "lvl \<le> maxL"
  shows "\<exists>r'. randLevel_loop maxL tbl r lvl = Inr r' \<and> lvl \<le> r' \<and> r' \<le> maxL"
  using assms
proof (induction maxL tbl r lvl rule: randLevel_loop.induct)
  case (1 maxL tbl r lvl)
  show ?case
  proof (cases "lvl < maxL \<and> r < tbl ! nat lvl")
    case True
    then have "\<exists>r'. randLevel_loop maxL tbl r (lvl + 1) = Inr r' \<and> lvl + 1 \<le> r' \<and> r' \<le> maxL"
      using 1 by auto
    then show ?thesis using True 1(2,3) by (subst randLevel_loop.simps) auto
  next
    case False
    then show ?thesis using 1(2,3,4) by (subst randLevel_loop.simps) auto
  qed
qed

lemma randLevel_range:
  assumes "skiplist_inv list xs"
  shows "\<exists>lvl. randLevel list r63 = Inr lvl \<and> 1 \<le> lvl \<and> lvl \<le> maxLevel list"
  using randLevel_loop_range[of "probTable list" "maxLevel list" 1] inv_lengths[OF assms]
  by (simp add: randLevel_def)

subsection \<open>\<open>Get\<close>, \<open>Add\<close> and \<open>Remove\<close> under the invariant\<close>

lemma at_level_agree:
  "(\<And>b. b \<in> set ys \<Longrightarrow> height l' b = height l b) \<Longrightarrow> at_level l' i ys = at_level l i ys"
  by (auto simp: at_level_def intro: filter_cong)

lemma inv_distinct:
  assumes "skiplist_inv list xs" shows "distinct xs"
proof -
  have "distinct (map (\<lambda>a. key (heap list a)) xs)"
    using inv_sorted[OF assms] by (simp add: strict_sorted_iff)
  then show ?thesis by (simp add: distinct_map)
qed

lemma find_app: "find P (xs @ ys) = (case find P xs of None \<Rightarrow> find P ys | Some x \<Rightarrow> Some x)"
  by (induction xs) auto

lemma at_level_top:
  assumes "skiplist_inv list xs" and "set ys \<subseteq> set xs"
  shows "at_level list (nat (maxLevel list)) ys = []"
proof -
  have "\<And>a. a \<in> set ys \<Longrightarrow> \<not> nat (maxLevel list) < height list a"
    using inv_elem[OF assms(1)] assms(2) by force
  then show ?thesis by (simp add: at_level_def)
qed

lemma at_level_0:
  assumes "skiplist_inv list xs" and "set ys \<subseteq> set xs"
  shows "at_level list 0 ys = ys"
proof -
  have "\<And>a. a \<in> set ys \<Longrightarrow> 0 < height list a"
    using inv_elem[OF assms(1)] assms(2) by force
  then show ?thesis by (simp add: at_level_def)
qed

lemma lower_subset: "set (lower list k xs) \<subseteq> set xs"
  by (metis lower_upper set_append Un_upper1)

lemma upper_subset: "set (upper list k xs) \<subseteq> set xs"
  by (metis lower_upper set_append Un_upper2)

lemma hit_upper:
  assumes "skiplist_inv list xs"
  shows "hit list k xs =
           (case upper list k xs of [] \<Rightarrow> None
            | b # bs \<Rightarrow> if key (heap list b) \<le> k then Some b else None)"
proof -
  have lo: "find (\<lambda>a. key (heap list a) = k) (lower list k xs) = None"
    using lower_keys[of _ list k xs] by (auto simp: find_None_iff)
  have "find (\<lambda>a. key (heap list a) = k) (lower list k xs @ upper list k xs)
        = find (\<lambda>a. key (heap list a) = k) (upper list k xs)"
    using lo by (simp add: find_app)
  then have h: "hit list k xs = find (\<lambda>a. key (heap list a) = k) (upper list k xs)"
    by (simp add: hit_def lower_upper)
  show ?thesis
  proof (cases "upper list k xs")
    case Nil
    then show ?thesis using h by simp
  next
    case (Cons b bs)
    have kb: "k \<le> key (heap list b)"
      using upper_keys[OF inv_sorted[OF assms], of b k] Cons by simp
    have "sorted_wrt (<) (map (\<lambda>a. key (heap list a)) (lower list k xs @ upper list k xs))"
      using inv_sorted[OF assms] by (simp add: lower_upper)
    then have "\<forall>c\<in>set bs. key (heap list b) < key (heap list c)"
      by (simp add: sorted_wrt_append Cons)
    then have "k \<noteq> key (heap list b) \<Longrightarrow> find (\<lambda>a. key (heap list a) = k) bs = None"
      using kb by (auto simp: find_None_iff)
    then show ?thesis using h Cons kb by auto
  qed
qed

lemma candidate_after_descent:
  assumes inv: "skiplist_inv list xs" and len: "length c = nat (maxLevel list)"
      and c: "\<forall>j<nat (maxLevel list). c ! j = Some (pred_at list k xs j)"
  shows "prev_next (list\<lparr>prevNodesCache := c\<rparr>) 0 = Inr (first_ptr (upper list k xs))"
    and "is_match (list\<lparr>prevNodesCache := c\<rparr>) (first_ptr (upper list k xs)) k \<longleftrightarrow> hit list k xs \<noteq> None"
    and "is_match (list\<lparr>prevNodesCache := c\<rparr>) (first_ptr (upper list k xs)) k \<Longrightarrow>
           hit list k xs = first_ptr (upper list k xs)"
proof -
  let ?l = "list\<lparr>prevNodesCache := c\<rparr>"
  have M: "0 < nat (maxLevel list)" using inv_lengths[OF inv] by simp
  have "path list 0 (next list ! 0) (at_level list 0 xs) None"
    using inv_path[OF inv M] .
  then have ch: "path ?l 0 (next ?l ! 0) (at_level list 0 (lower list k xs) @ at_level list 0 (upper list k xs)) None"
    using at_level_split[of list 0 xs k] by simp
  have "prev_next ?l 0 = Inr (first_ptr (at_level list 0 (upper list k xs)))"
    using prev_next_eval(3)[OF _ _ _ ch] c M len inv_lengths[OF inv] by (simp add: pred_at_def)
  then show "prev_next ?l 0 = Inr (first_ptr (upper list k xs))"
    using at_level_0[OF inv upper_subset] by simp
  show "is_match ?l (first_ptr (upper list k xs)) k \<longleftrightarrow> hit list k xs \<noteq> None"
    using hit_upper[OF inv, of k] by (auto simp: is_match_def first_ptr_def split: list.splits)
  show "is_match ?l (first_ptr (upper list k xs)) k \<Longrightarrow> hit list k xs = first_ptr (upper list k xs)"
    using hit_upper[OF inv, of k] by (auto simp: is_match_def first_ptr_def split: list.splits)
qed

lemma Get_inv:
  assumes "skiplist_inv list xs"
  shows "Get list k = Some (Inr (case hit list k xs of
                                   Some a \<Rightarrow> (value (heap list a), True)
                                 | None \<Rightarrow> ([], False)))"
proof -
  have M: "0 < nat (maxLevel list)" using inv_lengths[OF assms] by simp
  have "at_level list (nat (maxLevel list)) (lower list k xs) = []"
    using at_level_top[OF assms lower_subset] .
  then have "pred_at list k xs (nat (maxLevel list)) = Head"
    by (simp add: pred_at_def last_ref_def)
  then have "search (nat (maxLevel list)) k Head None list = Some (Inr (succ_at list k xs 0))"
    using search_inv[OF assms order_refl, of k None] M by simp
  moreover have "succ_at list k xs 0 = first_ptr (upper list k xs)"
    using at_level_0[OF assms upper_subset] by (simp add: succ_at_def)
  ultimately show ?thesis
    using hit_upper[OF assms, of k]
    by (auto simp: Get_def is_match_def first_ptr_def split: list.splits)
qed

lemma inv_value_update:
  assumes "skiplist_inv list xs" and "length c = nat (maxLevel list)"
  shows "skiplist_inv (list\<lparr>prevNodesCache := c, heap := (heap list)(b := (heap list b)\<lparr>value := v\<rparr>)\<rparr>) xs"
proof -
  let ?l = "list\<lparr>prevNodesCache := c, heap := (heap list)(b := (heap list b)\<lparr>value := v\<rparr>)\<rparr>"
  have h: "\<And>a. height ?l a = height list a" by (simp add: height_def)
  have k: "\<And>a. key (heap ?l a) = key (heap list a)" by simp
  have n: "\<And>a. next (heap ?l a) = next (heap list a)" by simp
  have al: "\<And>i. at_level ?l i xs = at_level list i xs"
    by (rule at_level_agree) (rule h)
  have ch: "\<And>i p ys q. path ?l i p ys q = path list i p ys q"
    by (rule path_frame) (simp add: h)
  show ?thesis
    using assms unfolding skiplist_inv_def al ch h k by simp
qed

lemma Add_hit:
  assumes inv: "skiplist_inv list xs" and hit: "hit list k xs = Some b"
  shows "\<exists>c. Add list k v r63 =
               Some (Inr (list\<lparr>prevNodesCache := c, heap := (heap list)(b := (heap list b)\<lparr>value := v\<rparr>)\<rparr>)) \<and>
             length c = nat (maxLevel list)"
proof -
  obtain c where g: "getPrevElementNodes list k = Some (Inr (list\<lparr>prevNodesCache := c\<rparr>))"
    and len: "length c = nat (maxLevel list)"
    and c: "\<forall>j<nat (maxLevel list). c ! j = Some (pred_at list k xs j)"
    using getPrevElementNodes_inv[OF inv] by blast
  note cand = candidate_after_descent[OF inv len c]
  have m: "is_match (list\<lparr>prevNodesCache := c\<rparr>) (first_ptr (upper list k xs)) k"
    using cand(2) hit by simp
  then have "first_ptr (upper list k xs) = Some b"
    using cand(3) hit by simp
  then have "Add list k v r63 =
      Some (Inr (list\<lparr>prevNodesCache := c, heap := (heap list)(b := (heap list b)\<lparr>value := v\<rparr>)\<rparr>))"
    using g cand(1) m by (simp add: Add_def bindE_def)
  then show ?thesis using len by blast
qed

lemma upper_keys_strict:
  assumes "skiplist_inv list xs" and "hit list k xs = None" and "a \<in> set (upper list k xs)"
  shows "k < key (heap list a)"
proof -
  have "k \<le> key (heap list a)"
    using upper_keys[OF inv_sorted[OF assms(1)] assms(3)] .
  moreover have "a \<in> set xs" using assms(3) upper_subset by blast
  then have "key (heap list a) \<noteq> k"
    using assms(2) by (auto simp: hit_def find_None_iff)
  ultimately show ?thesis by simp
qed

lemma sorted_split:
  assumes "skiplist_inv list xs"
  shows "sorted_wrt (<) (map (\<lambda>a. key (heap list a)) (lower list k xs))"
    and "sorted_wrt (<) (map (\<lambda>a. key (heap list a)) (upper list k xs))"
proof -
  have "sorted_wrt (<) (map (\<lambda>a. key (heap list a)) (lower list k xs @ upper list k xs))"
    using inv_sorted[OF assms] by (simp add: lower_upper)
  then show "sorted_wrt (<) (map (\<lambda>a. key (heap list a)) (lower list k xs))"
    and "sorted_wrt (<) (map (\<lambda>a. key (heap list a)) (upper list k xs))"
    by (simp_all add: sorted_wrt_append)
qed

lemma Add_fresh:
  assumes inv: "skiplist_inv list xs" and miss: "hit list k xs = None"
  shows "\<exists>list'. Add list k v r63 = Some (Inr list') \<and>
           skiplist_inv list' (lower list k xs @ allocated list # upper list k xs) \<and>
           allocated list' = Suc (allocated list) \<and>
           maxLevel list' = maxLevel list \<and> probability list' = probability list \<and>
           probTable list' = probTable list \<and>
           key (heap list' (allocated list)) = k \<and> value (heap list' (allocated list)) = v \<and>
           (\<forall>b. b \<noteq> allocated list \<longrightarrow>
                key (heap list' b) = key (heap list b) \<and> value (heap list' b) = value (heap list b) \<and>
                height list' b = height list b)"
proof -
  let ?M = "nat (maxLevel list)"
  let ?lo = "lower list k xs" and ?hi = "upper list k xs"
  obtain c where g: "getPrevElementNodes list k = Some (Inr (list\<lparr>prevNodesCache := c\<rparr>))"
    and len: "length c = ?M"
    and c: "\<forall>j<?M. c ! j = Some (pred_at list k xs j)"
    using getPrevElementNodes_inv[OF inv] by blast
  let ?l1 = "list\<lparr>prevNodesCache := c\<rparr>"
  note cand = candidate_after_descent[OF inv len c]
  have nm: "\<not> is_match ?l1 (first_ptr ?hi) k"
    using cand(2) miss by simp
  have inv1: "skiplist_inv ?l1 xs" using inv len by (rule inv_cache)
  obtain lvl where rl: "randLevel ?l1 r63 = Inr lvl" and lvl: "1 \<le> lvl" "lvl \<le> maxLevel list"
    using randLevel_range[OF inv1, of r63] by auto
  define a where "a = allocated list"
  define l2 where "l2 = ?l1\<lparr>heap := (heap ?l1)(a := \<lparr>next = replicate (nat lvl) None, key = k, value = v\<rparr>),
                          allocated := Suc a\<rparr>"
  have fresh: "a \<notin> set xs" using inv_elem[OF inv, of a] by (auto simp: a_def)
  have h2: "\<And>b. height l2 b = (if b = a then nat lvl else height list b)"
    by (simp add: l2_def height_def)
  have k2: "\<And>b. key (heap l2 b) = (if b = a then k else key (heap list b))"
    and v2: "\<And>b. value (heap l2 b) = (if b = a then v else value (heap list b))"
    by (simp_all add: l2_def)
  have sub: "\<And>j. set (at_level list j ?lo @ at_level list j ?hi) \<subseteq> set xs"
  proof -
    fix j
    have "set (at_level list j xs) \<subseteq> set xs" by (simp add: at_level_def)
    then show "set (at_level list j ?lo @ at_level list j ?hi) \<subseteq> set xs"
      by (simp only: at_level_split[symmetric])
  qed
  have dis: "\<And>j. distinct (at_level list j ?lo @ at_level list j ?hi)"
  proof -
    fix j
    have "distinct (at_level list j xs)" using inv_distinct[OF inv] by (simp add: at_level_def)
    then show "distinct (at_level list j ?lo @ at_level list j ?hi)"
      by (simp only: at_level_split[symmetric])
  qed
  have ch2: "\<forall>j<?M. path l2 j (next l2 ! j)
               (if j < 0 then at_level list j ?lo @ a # at_level list j ?hi
                else at_level list j ?lo @ at_level list j ?hi) None"
  proof (intro allI impI)
    fix j assume j: "j < ?M"
    have "path l2 j (next list ! j) (at_level list j xs) None = path list j (next list ! j) (at_level list j xs) None"
    proof (rule path_frame)
      fix b assume "b \<in> set (at_level list j xs)"
      then have "b \<noteq> a" using fresh by (auto simp: at_level_def)
      then show "height l2 b = height list b \<and> next (heap l2 b) ! j = next (heap list b) ! j"
        by (simp add: l2_def height_def)
    qed
    then have "path l2 j (next l2 ! j) (at_level list j xs) None"
      using inv_path[OF inv j] by (simp add: l2_def)
    then show "path l2 j (next l2 ! j)
               (if j < 0 then at_level list j ?lo @ a # at_level list j ?hi
                else at_level list j ?lo @ at_level list j ?hi) None"
      using at_level_split[of list j xs k] by simp
  qed
  have "\<exists>l'. for_range (link_at a) [0..<nat lvl] l2 = Inr l' \<and> frame l2 l' \<and>
              (\<forall>j<?M. path l' j (next l' ! j)
                 (if j < nat lvl then at_level list j ?lo @ a # at_level list j ?hi
                  else at_level list j ?lo @ at_level list j ?hi) None)"
  proof (rule add_loop[where M = ?M])
    show "0 \<le> nat lvl" by simp
    show "nat lvl \<le> ?M" using lvl by simp
    show "length (prevNodesCache l2) = ?M" using len by (simp add: l2_def)
    show "length (next l2) = ?M" using inv_lengths[OF inv] by (simp add: l2_def)
    show "\<forall>j<?M. prevNodesCache l2 ! j = Some (last_ref Head (at_level list j ?lo))"
      using c by (simp add: l2_def pred_at_def)
    show "height l2 a = nat lvl" by (simp add: h2)
    show "\<forall>j<?M. a \<notin> set (at_level list j ?lo @ at_level list j ?hi) \<and>
                 distinct (at_level list j ?lo @ at_level list j ?hi)"
      using sub dis fresh by blast
    show "\<forall>j<?M. path l2 j (next l2 ! j)
               (if j < 0 then at_level list j ?lo @ a # at_level list j ?hi
                else at_level list j ?lo @ at_level list j ?hi) None"
      by (rule ch2)
  qed
  then obtain l3 where l3: "for_range (link_at a) [0..<nat lvl] l2 = Inr l3" and fr: "frame l2 l3"
    and ch3: "\<forall>j<?M. path l3 j (next l3 ! j)
                 (if j < nat lvl then at_level list j ?lo @ a # at_level list j ?hi
                  else at_level list j ?lo @ at_level list j ?hi) None"
    by blast
  define list' where "list' = l3\<lparr>Length := Length l3 + 1\<rparr>"
  have res: "Add list k v r63 = Some (Inr list')"
    using g cand(1) nm rl l3
    by (simp add: Add_def bindE_def Let_def a_def l2_def list'_def)
  have h': "\<And>b. height list' b = (if b = a then nat lvl else height list b)"
    using fr h2 by (simp add: frame_def list'_def height_def)
  have k': "\<And>b. key (heap list' b) = (if b = a then k else key (heap list b))"
    and v': "\<And>b. value (heap list' b) = (if b = a then v else value (heap list b))"
    using fr k2 v2 by (simp_all add: frame_def list'_def)
  have fields: "maxLevel list' = maxLevel list" "probability list' = probability list"
    "probTable list' = probTable list" "allocated list' = Suc a"
    "length (next list') = ?M" "length (prevNodesCache list') = ?M"
    "Length list' = Length list + 1"
    using fr len inv_lengths[OF inv] by (simp_all add: frame_def list'_def l2_def)
  have lo_a: "a \<notin> set ?lo" and hi_a: "a \<notin> set ?hi"
    using fresh lower_subset[of list k xs] upper_subset[of list k xs] by auto
  have al: "\<And>j. at_level list' j (?lo @ a # ?hi) =
              (if j < nat lvl then at_level list j ?lo @ a # at_level list j ?hi
               else at_level list j ?lo @ at_level list j ?hi)"
  proof -
    fix j
    have "at_level list' j ?lo = at_level list j ?lo"
      using lo_a by (intro at_level_agree) (auto simp: h')
    moreover have "at_level list' j ?hi = at_level list j ?hi"
      using hi_a by (intro at_level_agree) (auto simp: h')
    moreover have "at_level list' j (?lo @ a # ?hi) =
                   at_level list' j ?lo @ (if j < height list' a then [a] else []) @ at_level list' j ?hi"
      by (simp add: at_level_def)
    ultimately show "at_level list' j (?lo @ a # ?hi) =
              (if j < nat lvl then at_level list j ?lo @ a # at_level list j ?hi
               else at_level list j ?lo @ at_level list j ?hi)"
      by (simp add: h')
  qed
  have ch': "\<forall>j<?M. path list' j (next list' ! j) (at_level list' j (?lo @ a # ?hi)) None"
  proof (intro allI impI)
    fix j assume j: "j < ?M"
    have "path list' j (next l3 ! j) (at_level list' j (?lo @ a # ?hi)) None
          = path l3 j (next l3 ! j) (at_level list' j (?lo @ a # ?hi)) None"
      by (rule path_frame) (simp add: list'_def height_def)
    then show "path list' j (next list' ! j) (at_level list' j (?lo @ a # ?hi)) None"
      using ch3 j al by (simp add: list'_def)
  qed
  have keys: "map (\<lambda>b. key (heap list' b)) (?lo @ a # ?hi) =
              map (\<lambda>b. key (heap list b)) ?lo @ k # map (\<lambda>b. key (heap list b)) ?hi"
    using lo_a hi_a by (auto simp: k')
  have srt: "sorted_wrt (<) (map (\<lambda>b. key (heap list' b)) (?lo @ a # ?hi))"
    unfolding keys
    using sorted_split[OF inv, of k] lower_keys[of _ list k xs] upper_keys_strict[OF inv miss]
    by (fastforce simp: sorted_wrt_append)
  have el: "\<forall>b\<in>set (?lo @ a # ?hi). b < allocated list' \<and> 1 \<le> height list' b \<and> height list' b \<le> nat (maxLevel list')"
  proof
    fix b assume b: "b \<in> set (?lo @ a # ?hi)"
    show "b < allocated list' \<and> 1 \<le> height list' b \<and> height list' b \<le> nat (maxLevel list')"
    proof (cases "b = a")
      case True
      have "Suc 0 \<le> nat lvl \<and> nat lvl \<le> nat (maxLevel list)" using lvl by linarith
      then show ?thesis using True fields by (simp add: h')
    next
      case False
      then have "b \<in> set xs" using b lower_subset[of list k xs] upper_subset[of list k xs] by auto
      then show ?thesis using inv_elem[OF inv, of b] False fields by (simp add: h' a_def)
    qed
  qed
  have len': "int (length (?lo @ a # ?hi)) = Length list + 1"
  proof -
    have "length (?lo @ ?hi) = length xs" by (simp only: lower_upper)
    then show ?thesis using inv by (simp add: skiplist_inv_def)
  qed
  have "skiplist_inv list' (?lo @ a # ?hi)"
    unfolding skiplist_inv_def
    using el srt ch' fields inv_lengths[OF inv] len' by simp
  then show ?thesis
    using res fields k' v' h' unfolding a_def by (intro exI[of _ list']) simp
qed

lemma Remove_miss:
  assumes inv: "skiplist_inv list xs" and miss: "hit list k xs = None"
  shows "\<exists>c. Remove list k = Some (Inr (list\<lparr>prevNodesCache := c\<rparr>, None)) \<and>
             length c = nat (maxLevel list)"
proof -
  obtain c where g: "getPrevElementNodes list k = Some (Inr (list\<lparr>prevNodesCache := c\<rparr>))"
    and len: "length c = nat (maxLevel list)"
    and c: "\<forall>j<nat (maxLevel list). c ! j = Some (pred_at list k xs j)"
    using getPrevElementNodes_inv[OF inv] by blast
  note cand = candidate_after_descent[OF inv len c]
  have "\<not> is_match (list\<lparr>prevNodesCache := c\<rparr>) (first_ptr (upper list k xs)) k"
    using cand(2) miss by simp
  then have "Remove list k = Some (Inr (list\<lparr>prevNodesCache := c\<rparr>, None))"
    using g cand(1) by (simp add: Remove_def bindE_def)
  then show ?thesis using len by blast
qed

lemma Remove_hit:
  assumes inv: "skiplist_inv list xs" and hit: "hit list k xs = Some b"
  shows "\<exists>list'. Remove list k = Some (Inr (list', Some b)) \<and>
           skiplist_inv list' (lower list k xs @ tl (upper list k xs)) \<and>
           upper list k xs = b # tl (upper list k xs) \<and>
           Length list' = Length list - 1 \<and> frame (list\<lparr>Length := Length list - 1\<rparr>) (list'\<lparr>prevNodesCache := prevNodesCache list\<rparr>)"
proof -
  let ?M = "nat (maxLevel list)"
  let ?lo = "lower list k xs" and ?hi = "tl (upper list k xs)"
  obtain c where g: "getPrevElementNodes list k = Some (Inr (list\<lparr>prevNodesCache := c\<rparr>))"
    and len: "length c = ?M"
    and c: "\<forall>j<?M. c ! j = Some (pred_at list k xs j)"
    using getPrevElementNodes_inv[OF inv] by blast
  let ?l1 = "list\<lparr>prevNodesCache := c\<rparr>"
  note cand = candidate_after_descent[OF inv len c]
  have m: "is_match ?l1 (first_ptr (upper list k xs)) k"
    using cand(2) hit by simp
  then have fp: "first_ptr (upper list k xs) = Some b"
    using cand(3) hit by simp
  then have up: "upper list k xs = b # ?hi"
    by (cases "upper list k xs") (auto simp: first_ptr_def)
  have xs: "xs = ?lo @ b # ?hi" using lower_upper[of list k xs] up by simp
  have bx: "b \<in> set xs" using xs by (metis in_set_conv_decomp)
  have hb: "height list b \<le> ?M" using inv_elem[OF inv bx] by simp
  have al: "\<And>j. at_level list j xs =
       (if j < 0 \<or> height list b \<le> j then at_level list j ?lo @ at_level list j ?hi
        else at_level list j ?lo @ b # at_level list j ?hi)"
  proof -
    fix j
    have "at_level list j (?lo @ b # ?hi) =
          at_level list j ?lo @ (if j < height list b then [b] else []) @ at_level list j ?hi"
      by (simp add: at_level_def)
    then show "at_level list j xs =
       (if j < 0 \<or> height list b \<le> j then at_level list j ?lo @ at_level list j ?hi
        else at_level list j ?lo @ b # at_level list j ?hi)"
      using xs by auto
  qed
  have "\<exists>l'. for_range (unlink_at b) [0..<height list b] ?l1 = Inr l' \<and> frame ?l1 l' \<and>
              (\<forall>j<?M. path l' j (next l' ! j) (at_level list j ?lo @ at_level list j ?hi) None)"
  proof (rule remove_loop[where M = ?M])
    show "0 \<le> height list b" by simp
    show "height list b \<le> ?M" by (rule hb)
    show "length (prevNodesCache ?l1) = ?M" using len by simp
    show "length (next ?l1) = ?M" using inv_lengths[OF inv] by simp
    show "\<forall>j<?M. prevNodesCache ?l1 ! j = Some (last_ref Head (at_level list j ?lo))"
      using c by (simp add: pred_at_def)
    show "height ?l1 b = height list b" by simp
    show "\<forall>j<?M. distinct (at_level list j ?lo @ b # at_level list j ?hi)"
    proof (intro allI impI)
      fix j
      have "distinct (?lo @ b # ?hi)" using inv_distinct[OF inv] xs by simp
      then show "distinct (at_level list j ?lo @ b # at_level list j ?hi)"
        by (auto simp: at_level_def)
    qed
    show "\<forall>j<?M. path ?l1 j (next ?l1 ! j)
            (if j < 0 \<or> height list b \<le> j then at_level list j ?lo @ at_level list j ?hi
             else at_level list j ?lo @ b # at_level list j ?hi) None"
      using inv_path[OF inv] al by simp
  qed
  then obtain l2 where l2: "for_range (unlink_at b) [0..<height list b] ?l1 = Inr l2" and fr: "frame ?l1 l2"
    and ch2: "\<forall>j<?M. path l2 j (next l2 ! j) (at_level list j ?lo @ at_level list j ?hi) None"
    by blast
  define list' where "list' = l2\<lparr>Length := Length l2 - 1\<rparr>"
  have res: "Remove list k = Some (Inr (list', Some b))"
    using g cand(1) m fp l2
    by (simp add: Remove_def bindE_def list'_def height_def)
  have h': "\<And>a. height list' a = height list a"
    using fr by (simp add: frame_def list'_def height_def)
  have k': "\<And>a. key (heap list' a) = key (heap list a)"
    using fr by (simp add: frame_def list'_def)
  have fields: "maxLevel list' = maxLevel list" "allocated list' = allocated list"
    "length (next list') = ?M" "length (prevNodesCache list') = ?M" "probTable list' = probTable list"
    "Length list' = Length list - 1"
    using fr len inv_lengths[OF inv] by (simp_all add: frame_def list'_def)
  have ch': "\<forall>j<?M. path list' j (next list' ! j) (at_level list' j (?lo @ ?hi)) None"
  proof (intro allI impI)
    fix j assume j: "j < ?M"
    have a: "at_level list' j (?lo @ ?hi) = at_level list j ?lo @ at_level list j ?hi"
      by (simp add: at_level_def h')
    have "path list' j (next l2 ! j) (at_level list' j (?lo @ ?hi)) None
          = path l2 j (next l2 ! j) (at_level list' j (?lo @ ?hi)) None"
      by (rule path_frame) (simp add: list'_def height_def)
    then show "path list' j (next list' ! j) (at_level list' j (?lo @ ?hi)) None"
      using ch2 j a by (simp add: list'_def)
  qed
  have "sorted_wrt (<) (map (\<lambda>a. key (heap list a)) (?lo @ b # ?hi))"
    using inv_sorted[OF inv] xs by simp
  then have srt: "sorted_wrt (<) (map (\<lambda>a. key (heap list' a)) (?lo @ ?hi))"
    by (auto simp: sorted_wrt_append k')
  have el: "\<forall>a\<in>set (?lo @ ?hi). a < allocated list' \<and> 1 \<le> height list' a \<and> height list' a \<le> nat (maxLevel list')"
  proof
    fix a assume "a \<in> set (?lo @ ?hi)"
    then have "a \<in> set xs" by (subst xs) auto
    then show "a < allocated list' \<and> 1 \<le> height list' a \<and> height list' a \<le> nat (maxLevel list')"
      using inv_elem[OF inv, of a] fields by (simp add: h')
  qed
  have len': "int (length (?lo @ ?hi)) = Length list - 1"
  proof -
    have "length xs = Suc (length (?lo @ ?hi))" by (subst xs) simp
    then show ?thesis using inv by (simp add: skiplist_inv_def)
  qed
  have "skiplist_inv list' (?lo @ ?hi)"
    unfolding skiplist_inv_def
    using el srt ch' fields inv_lengths[OF inv] len' by simp
  moreover have "frame (list\<lparr>Length := Length list - 1\<rparr>) (list'\<lparr>prevNodesCache := prevNodesCache list\<rparr>)"
    using fr by (simp add: frame_def list'_def height_def)
  ultimately show ?thesis
    using res fields up by (intro exI[of _ list']) simp
qed

lemma New_inv:
  assumes "1 \<le> m" and "m \<le> 64"
  shows "\<exists>list. NewWithMaxLevel m = Inr list \<and> skiplist_inv list []"
  using assms
  by (simp add: NewWithMaxLevel_def skiplist_inv_def probabilityTable_def at_level_def)

lemma SetProbability_inv:
  assumes "skiplist_inv list xs"
  shows "skiplist_inv (SetProbability list p) xs"
proof -
  let ?l = "SetProbability list p"
  have h: "\<And>a. height ?l a = height list a" by (simp add: height_def SetProbability_def)
  have al: "\<And>i. at_level ?l i xs = at_level list i xs"
    by (rule at_level_agree) (rule h)
  have ch: "\<And>i p ys q. path ?l i p ys q = path list i p ys q"
    by (rule path_frame) (simp add: h, simp add: SetProbability_def)
  show ?thesis
    using assms unfolding skiplist_inv_def al ch h
    by (auto simp: SetProbability_def probabilityTable_def)
qed

subsection \<open>The levels by traversal, and the lists that can be built\<close>

lemma follow_path:
  "path list i p ys None \<Longrightarrow> length ys \<le> n \<Longrightarrow> follow list i n p = ys"
proof (induction ys arbitrary: n p)
  case Nil
  then show ?case by (cases n) auto
next
  case (Cons a ys)
  then obtain m where "n = Suc m" by (cases n) auto
  then show ?case using Cons by (auto simp: height_def)
qed

lemma inv_length:
  assumes "skiplist_inv list xs" shows "length xs \<le> allocated list"
proof -
  have "set xs \<subseteq> {..<allocated list}" using inv_elem[OF assms] by auto
  then have "card (set xs) \<le> card {..<allocated list}" by (intro card_mono) auto
  then show ?thesis using inv_distinct[OF assms] by (simp add: distinct_card)
qed

lemma inv_level_chain:
  assumes "skiplist_inv list xs" and "i < nat (maxLevel list)"
  shows "level_chain list i = at_level list i xs"
proof -
  have "length (at_level list i xs) \<le> allocated list"
    using inv_length[OF assms(1)] by (simp add: at_level_def le_trans[OF length_filter_le])
  then show ?thesis
    unfolding level_chain_def using inv_path[OF assms] by (rule follow_path[rotated])
qed

lemma inv_elements:
  assumes "skiplist_inv list xs" shows "level_chain list 0 = xs"
proof -
  have "0 < nat (maxLevel list)" using inv_lengths[OF assms] by simp
  then show ?thesis
    using inv_level_chain[OF assms] at_level_0[OF assms subset_refl] by simp
qed

lemma hit_cases: "hit list k xs = None \<or> (\<exists>b. hit list k xs = Some b)"
  by (cases "hit list k xs") auto

lemma Add_inv:
  assumes "skiplist_inv list xs" and "Add list k v r63 = Some (Inr list')"
  shows "\<exists>xs'. skiplist_inv list' xs'"
proof (cases "hit list k xs")
  case None
  then show ?thesis using Add_fresh[OF assms(1) None, of v r63] assms(2) by auto
next
  case (Some b)
  then obtain c where "list' = list\<lparr>prevNodesCache := c, heap := (heap list)(b := (heap list b)\<lparr>value := v\<rparr>)\<rparr>"
    and "length c = nat (maxLevel list)"
    using Add_hit[OF assms(1) Some, of v r63] assms(2) by auto
  then show ?thesis using inv_value_update[OF assms(1)] by blast
qed

lemma Remove_inv:
  assumes "skiplist_inv list xs" and "Remove list k = Some (Inr (list', e))"
  shows "\<exists>xs'. skiplist_inv list' xs'"
proof (cases "hit list k xs")
  case None
  then show ?thesis using Remove_miss[OF assms(1) None] assms(2) inv_cache[OF assms(1)] by auto
next
  case (Some b)
  then show ?thesis using Remove_hit[OF assms(1) Some] assms(2) by auto
qed

lemma reachable_inv: "reachable list \<Longrightarrow> \<exists>xs. skiplist_inv list xs"
proof (induction rule: reachable.induct)
  case (reachable_New m list)
  then have "1 \<le> m \<and> m \<le> 64" by (auto simp: NewWithMaxLevel_def split: if_splits)
  then show ?case using New_inv[of m] reachable_New by auto
next
  case (reachable_Add list k v r63 list')
  then show ?case using Add_inv by blast
next
  case (reachable_Remove list k list' e)
  then show ?case using Remove_inv by blast
next
  case (reachable_SetProbability list p)
  then show ?case using SetProbability_inv by blast
qed

lemma reachable_elements: "reachable list \<Longrightarrow> skiplist_inv list (level_chain list 0)"
  using reachable_inv inv_elements by fastforce

subsection \<open>The index as a finite map\<close>

lemma lookup_hit:
  assumes "skiplist_inv list xs"
  shows "lookup list k = map_option (\<lambda>a. value (heap list a)) (hit list k xs)"
  by (simp add: lookup_def hit_def inv_elements[OF assms])

lemma Get_lookup:
  assumes "skiplist_inv list xs"
  shows "Get list k = Some (Inr (case lookup list k of Some v \<Rightarrow> (v, True) | None \<Rightarrow> ([], False)))"
  unfolding Get_inv[OF assms] lookup_hit[OF assms]
  by (cases "hit list k xs") auto

lemma hit_key: "hit list k xs = Some b \<Longrightarrow> key (heap list b) = k \<and> b \<in> set xs"
  unfolding hit_def by (auto simp: find_Some_iff)

lemma hit_agree:
  assumes "\<And>a. a \<in> set xs \<Longrightarrow> key (heap l' a) = key (heap l a)"
  shows "hit l' k xs = hit l k xs"
  unfolding hit_def using assms by (intro find_cong) auto

lemma hit_unique:
  assumes "skiplist_inv list xs" and "b \<in> set xs"
  shows "hit list (key (heap list b)) xs = Some b"
proof -
  have d: "distinct (map (\<lambda>a. key (heap list a)) xs)"
    using inv_sorted[OF assms(1)] by (simp add: strict_sorted_iff)
  obtain c where c: "hit list (key (heap list b)) xs = Some c"
    using assms(2) unfolding hit_def by (cases "find (\<lambda>a. key (heap list a) = key (heap list b)) xs") (auto simp: find_None_iff)
  then have "key (heap list c) = key (heap list b)" and "c \<in> set xs"
    using hit_key by blast+
  then have "c = b" using d assms(2) by (meson distinct_map inj_onD)
  then show ?thesis using c by simp
qed

lemma find_skip: "\<not> P b \<Longrightarrow> find P (xs @ b # ys) = find P (xs @ ys)"
  by (induction xs) auto

lemma Add_lookup:
  assumes inv: "skiplist_inv list xs"
  shows "\<exists>list' xs'. Add list k v r63 = Some (Inr list') \<and> skiplist_inv list' xs' \<and>
           lookup list' = (lookup list)(k \<mapsto> v) \<and>
           Length list' = (if lookup list k = None then Length list + 1 else Length list)"
proof (cases "hit list k xs")
  case None
  let ?a = "allocated list"
  let ?xs' = "lower list k xs @ ?a # upper list k xs"
  obtain list' where add: "Add list k v r63 = Some (Inr list')"
    and inv': "skiplist_inv list' ?xs'"
    and ka: "key (heap list' ?a) = k" and va: "value (heap list' ?a) = v"
    and same: "\<forall>b. b \<noteq> ?a \<longrightarrow> key (heap list' b) = key (heap list b) \<and> value (heap list' b) = value (heap list b)"
    using Add_fresh[OF inv None, of v r63] by blast
  have fresh: "?a \<notin> set xs" using inv_elem[OF inv, of ?a] by auto
  have len: "Length list' = Length list + 1"
  proof -
    have "length (lower list k xs @ upper list k xs) = length xs" by (simp only: lower_upper)
    then show ?thesis using inv inv' by (simp add: skiplist_inv_def)
  qed
  have ha: "hit list' k ?xs' = Some ?a"
    using hit_unique[OF inv', of ?a] ka by simp
  have "lookup list' k' = ((lookup list)(k \<mapsto> v)) k'" for k'
  proof (cases "k' = k")
    case True
    then show ?thesis using ha va by (simp add: lookup_hit[OF inv'])
  next
    case False
    have "find (\<lambda>a. key (heap list' a) = k') ?xs' = find (\<lambda>a. key (heap list' a) = k') (lower list k xs @ upper list k xs)"
      using False ka by (intro find_skip) simp
    also have "\<dots> = find (\<lambda>a. key (heap list a) = k') xs"
    proof -
      have "\<And>x. x \<in> set xs \<Longrightarrow> key (heap list' x) = key (heap list x)"
        using same fresh by metis
      then show ?thesis unfolding lower_upper by (intro find_cong) auto
    qed
    finally have h: "hit list' k' ?xs' = hit list k' xs" by (simp add: hit_def)
    have "\<And>b. hit list k' xs = Some b \<Longrightarrow> value (heap list' b) = value (heap list b)"
      using same fresh hit_key by metis
    then show ?thesis
      using False h by (cases "hit list k' xs") (auto simp: lookup_hit[OF inv'] lookup_hit[OF inv])
  qed
  then have "lookup list' = (lookup list)(k \<mapsto> v)" by (rule ext)
  moreover have "lookup list k = None" using None by (simp add: lookup_hit[OF inv])
  ultimately show ?thesis using add inv' len by auto
next
  case (Some b)
  obtain c where add: "Add list k v r63 =
               Some (Inr (list\<lparr>prevNodesCache := c, heap := (heap list)(b := (heap list b)\<lparr>value := v\<rparr>)\<rparr>))"
    and len: "length c = nat (maxLevel list)"
    using Add_hit[OF inv Some, of v r63] by blast
  let ?l = "list\<lparr>prevNodesCache := c, heap := (heap list)(b := (heap list b)\<lparr>value := v\<rparr>)\<rparr>"
  have inv': "skiplist_inv ?l xs" using inv len by (rule inv_value_update)
  have kb: "key (heap list b) = k" using hit_key[OF Some] by simp
  have h: "\<And>k'. hit ?l k' xs = hit list k' xs" by (rule hit_agree) simp
  have "lookup ?l k' = ((lookup list)(k \<mapsto> v)) k'" for k'
  proof (cases "k' = k")
    case True
    then show ?thesis using Some by (simp add: lookup_hit[OF inv'] h)
  next
    case False
    have "\<And>d. hit list k' xs = Some d \<Longrightarrow> d \<noteq> b"
      using hit_key kb False by blast
    then show ?thesis
      using False by (cases "hit list k' xs") (auto simp: lookup_hit[OF inv'] lookup_hit[OF inv] h)
  qed
  then have "lookup ?l = (lookup list)(k \<mapsto> v)" by (rule ext)
  moreover have "lookup list k \<noteq> None" using Some by (simp add: lookup_hit[OF inv])
  ultimately show ?thesis using add inv' by auto
qed

lemma Remove_lookup:
  assumes inv: "skiplist_inv list xs"
  shows "\<exists>list' xs' e. Remove list k = Some (Inr (list', e)) \<and> skiplist_inv list' xs' \<and>
           lookup list' = (lookup list)(k := None) \<and>
           e = hit list k xs \<and>
           Length list' = (if lookup list k = None then Length list else Length list - 1)"
proof (cases "hit list k xs")
  case None
  obtain c where rm: "Remove list k = Some (Inr (list\<lparr>prevNodesCache := c\<rparr>, None))"
    and len: "length c = nat (maxLevel list)"
    using Remove_miss[OF inv None] by blast
  have inv': "skiplist_inv (list\<lparr>prevNodesCache := c\<rparr>) xs" using inv len by (rule inv_cache)
  have h: "\<And>k'. hit (list\<lparr>prevNodesCache := c\<rparr>) k' xs = hit list k' xs" by (rule hit_agree) simp
  have "lookup (list\<lparr>prevNodesCache := c\<rparr>) = lookup list"
    by (rule ext) (simp add: lookup_hit[OF inv'] lookup_hit[OF inv] h)
  moreover have "lookup list k = None" using None by (simp add: lookup_hit[OF inv])
  ultimately show ?thesis using rm inv' None by auto
next
  case (Some b)
  let ?xs' = "lower list k xs @ tl (upper list k xs)"
  obtain list' where rm: "Remove list k = Some (Inr (list', Some b))"
    and inv': "skiplist_inv list' ?xs'"
    and up: "upper list k xs = b # tl (upper list k xs)"
    and len: "Length list' = Length list - 1"
    and fr: "frame (list\<lparr>Length := Length list - 1\<rparr>) (list'\<lparr>prevNodesCache := prevNodesCache list\<rparr>)"
    using Remove_hit[OF inv Some] by blast
  have same: "\<And>a. key (heap list' a) = key (heap list a) \<and> value (heap list' a) = value (heap list a)"
    using fr by (simp add: frame_def)
  have xs: "xs = lower list k xs @ b # tl (upper list k xs)"
    using lower_upper[of list k xs] up by simp
  have kb: "key (heap list b) = k" using hit_key[OF Some] by simp
  have "lookup list' k' = ((lookup list)(k := None)) k'" for k'
  proof (cases "k' = k")
    case True
    have "hit list' k ?xs' = None"
    proof (rule ccontr)
      assume "hit list' k ?xs' \<noteq> None"
      then obtain d where d: "hit list' k ?xs' = Some d" by auto
      then have "key (heap list d) = k" and dx: "d \<in> set ?xs'" using hit_key same by metis+
      moreover have "d \<in> set xs" using dx by (subst xs) auto
      ultimately have "hit list k xs = Some d" using hit_unique[OF inv] by auto
      then have "d = b" using Some by simp
      moreover have "distinct (lower list k xs @ b # tl (upper list k xs))"
        using inv_distinct[OF inv] xs by simp
      ultimately show False using dx by auto
    qed
    then show ?thesis using True by (simp add: lookup_hit[OF inv'])
  next
    case False
    have "find (\<lambda>a. key (heap list a) = k') (lower list k xs @ b # tl (upper list k xs))
          = find (\<lambda>a. key (heap list a) = k') ?xs'"
      using False kb by (intro find_skip) simp
    then have "hit list k' xs = hit list k' ?xs'" by (subst xs) (simp add: hit_def)
    moreover have "hit list' k' ?xs' = hit list k' ?xs'" by (rule hit_agree) (simp add: same)
    ultimately show ?thesis
      using False by (simp add: lookup_hit[OF inv'] lookup_hit[OF inv] same)
  qed
  then have "lookup list' = (lookup list)(k := None)" by (rule ext)
  moreover have "lookup list k \<noteq> None" using Some by (simp add: lookup_hit[OF inv])
  ultimately show ?thesis using rm inv' len Some by auto
qed

section \<open>The adaptive index: frames of the descents and of the updates\<close>

subsection \<open>Frames\<close>

lemma links_only_refl: "links_only l l"
  by (simp add: links_only_def)

lemma links_only_trans: "links_only l l1 \<Longrightarrow> links_only l1 l2 \<Longrightarrow> links_only l l2"
  by (simp add: links_only_def)

lemma links_only_set_node_next:
  "stash_set_node_next l p i v = Inr l' \<Longrightarrow> links_only l l'"
  by (cases p) (auto simp: links_only_def split: if_splits)

lemma descent_frame_refl: "descent_frame l l"
  by (simp add: descent_frame_def)

lemma descent_frame_trans: "descent_frame l l1 \<Longrightarrow> descent_frame l1 l2 \<Longrightarrow> descent_frame l l2"
  unfolding descent_frame_def by (auto intro: order_trans)

lemma links_only_descent_frame: "links_only l l' \<Longrightarrow> descent_frame l l'"
  by (simp add: links_only_def descent_frame_def)

lemma bindE_Inr: "bindE x f = Inr y \<Longrightarrow> \<exists>a. x = Inr a \<and> f a = Inr y"
  by (cases x) (auto simp: bindE_def)

lemma demote_frame:
  assumes "demote l i before a nxt = Inr l'"
  shows "descent_frame l l'"
proof -
  obtain l1 l2 where l1: "stash_set_node_next l before i nxt = Inr l1"
    and l2: "stash_set_node_next l1 (Elem a) i None = Inr l2"
    and l': "l' = set_level l2 a (level (sheap l2 a) - 1)"
    using assms unfolding demote_def by (auto dest!: bindE_Inr)
  have "links_only l l2"
    using links_only_set_node_next[OF l1] links_only_set_node_next[OF l2] by (rule links_only_trans)
  then have "descent_frame l l2" by (rule links_only_descent_frame)
  moreover have "descent_frame l2 l'"
    unfolding l' by (simp add: descent_frame_def set_level_def)
  ultimately show ?thesis by (rule descent_frame_trans)
qed

lemma stash_advance_frame_aux:
  assumes "stash_advance l k i prev nxt = Some y"
  shows "\<forall>l' p'. y = Inr (l', p') \<longrightarrow> descent_frame l l'"
proof (induct rule: stash_advance.raw_induct[OF _ assms])
  case (1 f l k i prev nxt y)
  show ?case
  proof (cases nxt)
    case None
    then show ?thesis using 1(2) by (auto simp: descent_frame_refl)
  next
    case (Some a)
    then show ?thesis
      using 1
      by (auto split: if_splits simp: Let_def descent_frame_refl dest!: bindE_Inr demote_frame)
  qed
qed

lemma stash_advance_frame:
  "stash_advance l k i prev nxt = Some (Inr (l', p')) \<Longrightarrow> descent_frame l l'"
  using stash_advance_frame_aux by blast

lemma descent_frame_cache:
  "length c = length (sprevNodesCache l) \<Longrightarrow> descent_frame l (l\<lparr>sprevNodesCache := c\<rparr>)"
  by (simp add: descent_frame_def)

lemma stash_descend_frame:
  "stash_descend n k prev l = Some (Inr l') \<Longrightarrow> descent_frame l l'"
proof (induction n arbitrary: prev l)
  case 0
  then show ?case by (simp add: descent_frame_refl)
next
  case (Suc i)
  from Suc.prems obtain l1 p1 where
    a: "stash_advance l k i prev (stash_node_next l prev ! i) = Some (Inr (l1, p1))"
    and d: "stash_descend i k p1 (l1\<lparr>sprevNodesCache := (sprevNodesCache l1)[i := Some p1]\<rparr>) = Some (Inr l')"
    by (auto split: if_splits option.splits sum.splits)
  have "descent_frame l l1" using a by (rule stash_advance_frame)
  moreover have "descent_frame l1 (l1\<lparr>sprevNodesCache := (sprevNodesCache l1)[i := Some p1]\<rparr>)"
    by (rule descent_frame_cache) simp
  moreover have "descent_frame (l1\<lparr>sprevNodesCache := (sprevNodesCache l1)[i := Some p1]\<rparr>) l'"
    using d by (rule Suc.IH)
  ultimately show ?case by (blast intro: descent_frame_trans)
qed

lemma stash_getPrevElementNodes_frame:
  "stash_getPrevElementNodes l k = Some (Inr l') \<Longrightarrow> descent_frame l l'"
  unfolding stash_getPrevElementNodes_def by (rule stash_descend_frame)

subsection \<open>Where a descent stops\<close>

lemma advance_stop_aux:
  assumes "advance list k i prev nxt = Some y"
  shows "\<forall>p' n'. y = Inr (p', n') \<longrightarrow>
           (nxt = node_next list prev ! i \<longrightarrow> n' = node_next list p' ! i) \<and>
           (\<forall>a. n' = Some a \<longrightarrow> k \<le> key (heap list a))"
proof (induct rule: advance.raw_induct[OF _ assms])
  case (1 f list k i prev nxt y)
  show ?case
  proof (cases nxt)
    case None
    then show ?thesis using 1(2) by auto
  next
    case (Some a)
    then show ?thesis using 1 by (auto split: if_splits)
  qed
qed

lemma advance_stop:
  assumes "advance list k i prev (node_next list prev ! i) = Some (Inr (p', n'))"
  shows "n' = node_next list p' ! i" and "n' = Some a \<Longrightarrow> k \<le> key (heap list a)"
  using advance_stop_aux[OF assms] by auto

lemma stash_walk_stop_aux:
  assumes "stash_walk list k i prev nxt = Some y"
  shows "\<forall>p' n'. y = Inr (p', n') \<longrightarrow> (\<forall>a. n' = Some a \<longrightarrow> k \<le> skey (sheap list a))"
proof (induct rule: stash_walk.raw_induct[OF _ assms])
  case (1 f list k i prev nxt y)
  show ?case
  proof (cases nxt)
    case None
    then show ?thesis using 1(2) by auto
  next
    case (Some a)
    then show ?thesis using 1 by (auto split: if_splits)
  qed
qed

lemma stash_advance_stop_aux:
  assumes "stash_advance list k i prev nxt = Some y"
  shows "\<forall>l' p'. y = Inr (l', p') \<longrightarrow> i = 0 \<longrightarrow> nxt = stash_node_next list prev ! 0 \<longrightarrow>
           l' = list \<and> (\<forall>a. stash_node_next list p' ! 0 = Some a \<longrightarrow> k \<le> skey (sheap list a))"
proof (induct rule: stash_advance.raw_induct[OF _ assms])
  case (1 f list k i prev nxt y)
  show ?case
  proof (cases nxt)
    case None
    then show ?thesis using 1(2) by auto
  next
    case (Some a)
    then show ?thesis using 1 by (auto split: if_splits simp: Let_def)
  qed
qed

lemma stash_advance_stop:
  assumes "stash_advance list k 0 prev (stash_node_next list prev ! 0) = Some (Inr (l', p'))"
  shows "l' = list" and "stash_node_next list p' ! 0 = Some a \<Longrightarrow> k \<le> skey (sheap list a)"
  using stash_advance_stop_aux[OF assms] by auto

text \<open>After a descent that ran at least level 0, the candidate \<open>prevs[0].next[0]\<close> is
  \<open>nil\<close> or an element whose key is not below the search key.\<close>

lemma descend_candidate:
  assumes "descend n k prev list = Some (Inr l1)" and "0 < n" and "prev_next l1 0 = Inr (Some a)"
  shows "k \<le> key (heap l1 a)"
  using assms
proof (induction n arbitrary: prev list)
  case 0
  then show ?case by simp
next
  case (Suc i)
  from Suc.prems(1) obtain p1 n1 where
    a: "advance list k i prev (node_next list prev ! i) = Some (Inr (p1, n1))"
    and len: "i < length (prevNodesCache list)"
    and d: "descend i k p1 (list\<lparr>prevNodesCache := (prevNodesCache list)[i := Some p1]\<rparr>) = Some (Inr l1)"
    by (auto split: if_splits option.splits sum.splits)
  show ?case
  proof (cases i)
    case 0
    then have l1: "l1 = list\<lparr>prevNodesCache := (prevNodesCache list)[0 := Some p1]\<rparr>"
      using d by simp
    have "node_next list p1 ! 0 = Some a"
      using Suc.prems(3) len 0 unfolding l1
      by (cases p1) (auto simp: prev_next_def prev_at_def bindE_def split: if_splits)
    then have "k \<le> key (heap list a)"
      using advance_stop[OF a] 0 by auto
    then show ?thesis by (simp add: l1)
  next
    case (Suc j)
    then show ?thesis using Suc.IH[OF d _ Suc.prems(3)] by simp
  qed
qed

lemma stash_descend_candidate:
  assumes "stash_descend n k prev list = Some (Inr l1)" and "0 < n"
      and "stash_prev_next l1 0 = Inr (Some a)"
  shows "k \<le> skey (sheap l1 a)"
  using assms
proof (induction n arbitrary: prev list)
  case 0
  then show ?case by simp
next
  case (Suc i)
  from Suc.prems(1) obtain l' p1 where
    a: "stash_advance list k i prev (stash_node_next list prev ! i) = Some (Inr (l', p1))"
    and len: "i < length (sprevNodesCache l')"
    and d: "stash_descend i k p1 (l'\<lparr>sprevNodesCache := (sprevNodesCache l')[i := Some p1]\<rparr>) = Some (Inr l1)"
    by (auto split: if_splits option.splits sum.splits)
  show ?case
  proof (cases i)
    case 0
    have l': "l' = list" using stash_advance_stop(1) a 0 by blast
    have l1: "l1 = list\<lparr>sprevNodesCache := (sprevNodesCache list)[0 := Some p1]\<rparr>"
      using d 0 l' by simp
    have "stash_node_next list p1 ! 0 = Some a"
      using Suc.prems(3) len 0 l' unfolding l1
      by (cases p1) (auto simp: stash_prev_next_def stash_prev_at_def bindE_def split: if_splits)
    then have "k \<le> skey (sheap list a)"
      using stash_advance_stop(2) a 0 by blast
    then show ?thesis by (simp add: l1)
  next
    case (Suc j)
    then show ?thesis using Suc.IH[OF d _ Suc.prems(3)] by simp
  qed
qed

lemma search_candidate:
  assumes "search n k prev nxt list = Some (Inr (Some a))"
      and "\<And>b. nxt = Some b \<Longrightarrow> k \<le> key (heap list b)"
  shows "k \<le> key (heap list a)"
  using assms
proof (induction n arbitrary: prev nxt)
  case 0
  then show ?case by simp
next
  case (Suc i)
  from Suc.prems(1) obtain p1 n1 where
    a: "advance list k i prev (node_next list prev ! i) = Some (Inr (p1, n1))"
    and d: "search i k p1 n1 list = Some (Inr (Some a))"
    by (auto split: if_splits option.splits sum.splits)
  show ?case
    using Suc.IH[OF d] advance_stop(2)[OF a] by blast
qed

lemma stash_search_candidate:
  assumes "stash_search n k prev nxt list = Some (Inr (Some a))"
      and "\<And>b. nxt = Some b \<Longrightarrow> k \<le> skey (sheap list b)"
  shows "k \<le> skey (sheap list a)"
  using assms
proof (induction n arbitrary: prev nxt)
  case 0
  then show ?case by simp
next
  case (Suc i)
  from Suc.prems(1) obtain p1 n1 where
    a: "stash_walk list k i prev (stash_node_next list prev ! i) = Some (Inr (p1, n1))"
    and d: "stash_search i k p1 n1 list = Some (Inr (Some a))"
    by (auto split: if_splits option.splits sum.splits)
  show ?case
    using Suc.IH[OF d] stash_walk_stop_aux[OF a] by blast
qed

subsection \<open>What the operations of the adaptive index change\<close>

lemma stash_set_prev_next_links: "stash_set_prev_next l i v = Inr l' \<Longrightarrow> links_only l l'"
  unfolding stash_set_prev_next_def
  by (auto dest!: bindE_Inr links_only_set_node_next)

lemma stash_link_at_links:
  assumes "stash_link_at a i l = Inr l'"
  shows "links_only l l'"
proof -
  obtain n l1 where "stash_set_node_next l (Elem a) (nat i) n = Inr l1"
    and "stash_set_prev_next l1 i (Some a) = Inr l'"
    using assms unfolding stash_link_at_def by (blast dest!: bindE_Inr)
  then show ?thesis
    using links_only_set_node_next stash_set_prev_next_links links_only_trans by blast
qed

lemma stash_unlink_at_links: "stash_unlink_at a i l = Inr l' \<Longrightarrow> links_only l l'"
  unfolding stash_unlink_at_def
  by (auto split: if_splits dest!: stash_set_prev_next_links)

lemma for_range_links:
  assumes "\<And>i l l'. body i l = Inr l' \<Longrightarrow> links_only l l'"
  shows "for_range body js l = Inr l' \<Longrightarrow> links_only l l'"
proof (induction js arbitrary: l)
  case Nil
  then show ?case by (simp add: links_only_refl)
next
  case (Cons i js)
  then obtain l1 where "body i l = Inr l1" and "for_range body js l1 = Inr l'"
    by (auto split: sum.splits)
  then show ?case using assms Cons.IH by (blast intro: links_only_trans)
qed

lemma randLevel_loop_le:
  "randLevel_loop maxL tbl r lvl = Inr r' \<Longrightarrow> lvl \<le> r' \<and> (r' \<le> maxL \<or> r' = lvl)"
proof (induction maxL tbl r lvl rule: randLevel_loop.induct)
  case (1 maxL tbl r lvl)
  show ?case
  proof (cases "lvl < maxL \<and> 0 \<le> lvl \<and> nat lvl < length tbl \<and> r < tbl ! nat lvl")
    case True
    then have "randLevel_loop maxL tbl r (lvl + 1) = Inr r'"
      using 1(2) by (subst (asm) randLevel_loop.simps) simp
    then have "lvl + 1 \<le> r' \<and> (r' \<le> maxL \<or> r' = lvl + 1)"
      using 1(1) True by blast
    then show ?thesis using True by auto
  next
    case False
    then show ?thesis
      using 1(2) by (subst (asm) randLevel_loop.simps) (auto split: if_splits)
  qed
qed

subsection \<open>Bounds on levels and array lengths\<close>

lemma shape_descent_frame: "stash_shape l \<Longrightarrow> descent_frame l l' \<Longrightarrow> stash_shape l'"
  unfolding stash_shape_def descent_frame_def by (auto intro: order_trans)

lemma shape_links_only: "stash_shape l \<Longrightarrow> links_only l l' \<Longrightarrow> stash_shape l'"
  by (blast intro: shape_descent_frame links_only_descent_frame)

lemma promote_cases:
  assumes "promote l a = Inr l'"
  obtains (same) "l' = l"
  | (promoted) l1 p where "stash_link_at a (level (sheap l a)) l = Inr l1"
      and "stash_prev_at l1 (level (sheap l a)) = Inr p"
      and "l' = set_level (case p of Head \<Rightarrow> l1\<lparr>visited := False\<rparr> | Elem b \<Rightarrow> set_visited l1 b False)
                  a (level (sheap l a) + 1)"
      and "level (sheap l a) < smaxLevel l" and "0 \<le> level (sheap l a)"
proof (cases "level (sheap l a) < smaxLevel l \<and> sprevNodesCache l ! nat (level (sheap l a)) \<noteq> Some Head")
  case False
  then have "l' = l"
    using assms unfolding promote_def Let_def by (auto split: if_splits)
  then show ?thesis by (rule same)
next
  case True
  then have "bindE (stash_link_at a (level (sheap l a)) l) (\<lambda>l1.
             bindE (stash_prev_at l1 (level (sheap l a))) (\<lambda>p.
               Inr (set_level (case p of Head \<Rightarrow> l1\<lparr>visited := False\<rparr> | Elem b \<Rightarrow> set_visited l1 b False)
                      a (level (sheap l a) + 1)))) = Inr l'"
    and nn: "0 \<le> level (sheap l a)"
    using assms unfolding promote_def Let_def by (auto split: if_splits)
  then obtain l1 p where "stash_link_at a (level (sheap l a)) l = Inr l1"
    and "stash_prev_at l1 (level (sheap l a)) = Inr p"
    and "l' = set_level (case p of Head \<Rightarrow> l1\<lparr>visited := False\<rparr> | Elem b \<Rightarrow> set_visited l1 b False)
                  a (level (sheap l a) + 1)"
    by (auto dest!: bindE_Inr)
  then show ?thesis using True nn by (intro promoted) auto
qed

lemma promote_levels:
  assumes "promote l a = Inr l'"
  shows "(\<forall>b. b \<noteq> a \<longrightarrow> level (sheap l' b) = level (sheap l b)) \<and>
         (level (sheap l' a) = level (sheap l a) \<or>
          level (sheap l' a) = level (sheap l a) + 1 \<and> level (sheap l a) < smaxLevel l)"
  using assms
proof (cases rule: promote_cases)
  case same
  then show ?thesis by simp
next
  case (promoted l1 p)
  have "links_only l l1" using promoted(1) by (rule stash_link_at_links)
  then show ?thesis
    using promoted(3,4)
    by (cases p) (auto simp: set_level_def set_visited_def links_only_def)
qed

lemma promote_frame:
  assumes "promote l a = Inr l'"
  shows "smaxLevel l' = smaxLevel l \<and> sallocated l' = sallocated l \<and> sLength l' = sLength l \<and>
         (\<forall>b. length (snext (sheap l' b)) = length (snext (sheap l b)) \<and>
              skey (sheap l' b) = skey (sheap l b) \<and> svalue (sheap l' b) = svalue (sheap l b))"
  using assms
proof (cases rule: promote_cases)
  case same
  then show ?thesis by simp
next
  case (promoted l1 p)
  have "links_only l l1" using promoted(1) by (rule stash_link_at_links)
  then show ?thesis
    using promoted(3)
    by (cases p) (auto simp: set_level_def set_visited_def links_only_def)
qed

lemma shape_promote:
  assumes "stash_shape l" and "promote l a = Inr l'"
  shows "stash_shape l'"
  using assms(1) promote_levels[OF assms(2)] promote_frame[OF assms(2)]
  unfolding stash_shape_def by (metis zless_imp_add1_zle)

subsection \<open>The outcomes of \<open>Add\<close>, \<open>Remove\<close> and \<open>Get\<close>\<close>

lemma stash_Add_cases:
  assumes "stash_Add l k v r63 = Some (Inr l')"
  obtains (first_hit) l1 a where "stash_getPrevElementNodes l k = Some (Inr l1)"
      and "stash_prev_next l1 0 = Inr (Some a)" and "stash_is_match l1 (Some a) k"
      and "\<not> visited (sheap l1 a)"
      and "l' = (set_visited l1 a True)\<lparr>sheap := (sheap (set_visited l1 a True))
                   (a := (sheap (set_visited l1 a True) a)\<lparr>svalue := v\<rparr>)\<rparr>"
  | (later_hit) l1 a l2 where "stash_getPrevElementNodes l k = Some (Inr l1)"
      and "stash_prev_next l1 0 = Inr (Some a)" and "stash_is_match l1 (Some a) k"
      and "visited (sheap l1 a)" and "promote l1 a = Inr l2"
      and "l' = l2\<lparr>sheap := (sheap l2)(a := (sheap l2 a)\<lparr>svalue := v\<rparr>)\<rparr>"
  | (fresh) l1 c lvl l3 where "stash_getPrevElementNodes l k = Some (Inr l1)"
      and "stash_prev_next l1 0 = Inr c" and "\<not> stash_is_match l1 c k"
      and "stash_randLevel l1 r63 = Inr lvl"
      and "for_range (\<lambda>i. stash_link_at (sallocated l1) (int i)) [0..<nat lvl] (fresh_element l1 k v lvl) = Inr l3"
      and "l' = l3\<lparr>sLength := sLength l3 + 1\<rparr>"
proof -
  obtain l1 where g: "stash_getPrevElementNodes l k = Some (Inr l1)"
    and b: "bindE (stash_prev_next l1 0) (\<lambda>element.
            if stash_is_match l1 element k then
              (let a = the element in
               bindE (if \<not> visited (sheap l1 a) then Inr (set_visited l1 a True) else promote l1 a) (\<lambda>l2.
                 Inr (l2\<lparr>sheap := (sheap l2)(a := (sheap l2 a)\<lparr>svalue := v\<rparr>)\<rparr>)))
            else
              bindE (stash_randLevel l1 r63) (\<lambda>lvl.
                let a = sallocated l1;
                    l2 = l1\<lparr>sheap := (sheap l1)(a :=
                              \<lparr>snext = replicate (nat (smaxLevel l1)) None, level = lvl,
                               visited = (lvl = 1), skey = k, svalue = v\<rparr>),
                            sallocated := Suc a\<rparr>
                in bindE (for_range (\<lambda>i. stash_link_at a (int i)) [0..<nat lvl] l2) (\<lambda>l3.
                     Inr (l3\<lparr>sLength := sLength l3 + 1\<rparr>)))) = Inr l'"
    using assms unfolding stash_Add_def by (auto split: option.splits sum.splits)
  from b obtain c where c: "stash_prev_next l1 0 = Inr c"
    and rest: "(if stash_is_match l1 c k then
              (let a = the c in
               bindE (if \<not> visited (sheap l1 a) then Inr (set_visited l1 a True) else promote l1 a) (\<lambda>l2.
                 Inr (l2\<lparr>sheap := (sheap l2)(a := (sheap l2 a)\<lparr>svalue := v\<rparr>)\<rparr>)))
            else
              bindE (stash_randLevel l1 r63) (\<lambda>lvl.
                let a = sallocated l1;
                    l2 = l1\<lparr>sheap := (sheap l1)(a :=
                              \<lparr>snext = replicate (nat (smaxLevel l1)) None, level = lvl,
                               visited = (lvl = 1), skey = k, svalue = v\<rparr>),
                            sallocated := Suc a\<rparr>
                in bindE (for_range (\<lambda>i. stash_link_at a (int i)) [0..<nat lvl] l2) (\<lambda>l3.
                     Inr (l3\<lparr>sLength := sLength l3 + 1\<rparr>)))) = Inr l'"
    by (blast dest!: bindE_Inr)
  show ?thesis
  proof (cases "stash_is_match l1 c k")
    case True
    then obtain a where a: "c = Some a"
      by (cases c) (auto simp: stash_is_match_def)
    show ?thesis
    proof (cases "visited (sheap l1 a)")
      case False
      then have "l' = (set_visited l1 a True)\<lparr>sheap := (sheap (set_visited l1 a True))
                   (a := (sheap (set_visited l1 a True) a)\<lparr>svalue := v\<rparr>)\<rparr>"
        using rest True a by (simp add: bindE_def)
      then show ?thesis using first_hit g c a True False by blast
    next
      case vis: True
      then obtain l2 where "promote l1 a = Inr l2"
        and "l' = l2\<lparr>sheap := (sheap l2)(a := (sheap l2 a)\<lparr>svalue := v\<rparr>)\<rparr>"
        using rest True a by (auto dest!: bindE_Inr)
      then show ?thesis using later_hit g c a True vis by blast
    qed
  next
    case False
    then obtain lvl l3 where "stash_randLevel l1 r63 = Inr lvl"
      and "for_range (\<lambda>i. stash_link_at (sallocated l1) (int i)) [0..<nat lvl] (fresh_element l1 k v lvl) = Inr l3"
      and "l' = l3\<lparr>sLength := sLength l3 + 1\<rparr>"
      using rest by (auto simp: Let_def fresh_element_def dest!: bindE_Inr)
    then show ?thesis using fresh g c False by blast
  qed
qed

lemma stash_Remove_cases:
  assumes "stash_Remove l k = Some (Inr (l', e))"
  obtains (miss) l1 c where "stash_getPrevElementNodes l k = Some (Inr l1)"
      and "stash_prev_next l1 0 = Inr c" and "\<not> stash_is_match l1 c k" and "l' = l1" and "e = None"
  | (hit) l1 a l2 where "stash_getPrevElementNodes l k = Some (Inr l1)"
      and "stash_prev_next l1 0 = Inr (Some a)" and "stash_is_match l1 (Some a) k"
      and "for_range (stash_unlink_at a) [0..<length (snext (sheap l1 a))] l1 = Inr l2"
      and "l' = l2\<lparr>sLength := sLength l2 - 1\<rparr>" and "e = Some a"
proof -
  obtain l1 where g: "stash_getPrevElementNodes l k = Some (Inr l1)"
    and b: "bindE (stash_prev_next l1 0) (\<lambda>element.
            if stash_is_match l1 element k then
              bindE (for_range (stash_unlink_at (the element))
                       [0..<length (snext (sheap l1 (the element)))] l1) (\<lambda>l2.
                Inr (l2\<lparr>sLength := sLength l2 - 1\<rparr>, element))
            else Inr (l1, None)) = Inr (l', e)"
    using assms unfolding stash_Remove_def by (auto split: option.splits sum.splits)
  from b obtain c where c: "stash_prev_next l1 0 = Inr c"
    and rest: "(if stash_is_match l1 c k then
              bindE (for_range (stash_unlink_at (the c))
                       [0..<length (snext (sheap l1 (the c)))] l1) (\<lambda>l2.
                Inr (l2\<lparr>sLength := sLength l2 - 1\<rparr>, c))
            else Inr (l1, None)) = Inr (l', e)"
    by (blast dest!: bindE_Inr)
  show ?thesis
  proof (cases "stash_is_match l1 c k")
    case True
    then obtain a where a: "c = Some a"
      by (cases c) (auto simp: stash_is_match_def)
    obtain l2 where "for_range (stash_unlink_at a) [0..<length (snext (sheap l1 a))] l1 = Inr l2"
      and "l' = l2\<lparr>sLength := sLength l2 - 1\<rparr>" and "e = Some a"
      using rest True a by (auto dest!: bindE_Inr)
    then show ?thesis using hit g c a True by blast
  next
    case False
    then show ?thesis using miss g c rest by auto
  qed
qed

lemma stash_Get_cases:
  assumes "stash_Get l k = Some (Inr (l', v, found))"
  obtains (miss) c where "stash_search (nat (smaxLevel l)) k Head None l = Some (Inr c)"
      and "\<not> stash_is_match l c k" and "l' = l" and "v = []" and "\<not> found"
  | (hit) a where "stash_search (nat (smaxLevel l)) k Head None l = Some (Inr (Some a))"
      and "skey (sheap l a) = k" and "l' = set_visited l a True"
      and "v = svalue (sheap l a)" and "found"
proof -
  obtain c where c: "stash_search (nat (smaxLevel l)) k Head None l = Some (Inr c)"
    and r: "(l', v, found) = (if stash_is_match l c k
                     then (set_visited l (the c) True, svalue (sheap l (the c)), True)
                     else (l, [], False))"
    using assms unfolding stash_Get_def by (auto split: option.splits sum.splits)
  show ?thesis
  proof (cases "stash_is_match l c k")
    case True
    then obtain a where a: "c = Some a" and le: "skey (sheap l a) \<le> k"
      by (cases c) (auto simp: stash_is_match_def)
    have "k \<le> skey (sheap l a)"
      using stash_search_candidate[OF c[unfolded a]] by simp
    then have "skey (sheap l a) = k" using le by simp
    then show ?thesis using hit c a r True by auto
  next
    case False
    then show ?thesis using miss c r by auto
  qed
qed

subsection \<open>Lists built by the operations of the adaptive index\<close>

lemma shape_set_visited: "stash_shape l \<Longrightarrow> stash_shape (set_visited l a b)"
  by (simp add: stash_shape_def set_visited_def)

lemma shape_value: "stash_shape l \<Longrightarrow> stash_shape (l\<lparr>sheap := (sheap l)(a := (sheap l a)\<lparr>svalue := v\<rparr>)\<rparr>)"
  by (simp add: stash_shape_def)

lemma shape_Length: "stash_shape l \<Longrightarrow> stash_shape (l\<lparr>sLength := n\<rparr>)"
  by (simp add: stash_shape_def)

lemma stash_randLevel_le:
  assumes "stash_randLevel l r63 = Inr lvl" and "1 \<le> smaxLevel l"
  shows "1 \<le> lvl \<and> lvl \<le> smaxLevel l"
  using randLevel_loop_le[OF assms(1)[unfolded stash_randLevel_def]] assms(2) by auto

lemma shape_fresh:
  assumes "stash_shape l" and "lvl \<le> smaxLevel l"
  shows "stash_shape (fresh_element l k v lvl)"
  using assms by (auto simp: stash_shape_def fresh_element_def less_Suc_eq)

lemma shape_Add:
  assumes "stash_shape l" and "stash_Add l k v r63 = Some (Inr l')"
  shows "stash_shape l'"
  using assms(2)
proof (cases rule: stash_Add_cases)
  case (first_hit l1 a)
  have "stash_shape l1"
    using assms(1) stash_getPrevElementNodes_frame[OF first_hit(1)] by (rule shape_descent_frame)
  then show ?thesis unfolding first_hit(5) by (intro shape_value shape_set_visited)
next
  case (later_hit l1 a l2)
  have "stash_shape l1"
    using assms(1) stash_getPrevElementNodes_frame[OF later_hit(1)] by (rule shape_descent_frame)
  then have "stash_shape l2" using later_hit(5) by (rule shape_promote)
  then show ?thesis unfolding later_hit(6) by (rule shape_value)
next
  case (fresh l1 c lvl l3)
  have s1: "stash_shape l1"
    using assms(1) stash_getPrevElementNodes_frame[OF fresh(1)] by (rule shape_descent_frame)
  then have "lvl \<le> smaxLevel l1"
    using stash_randLevel_le[OF fresh(4)] by (simp add: stash_shape_def)
  then have "stash_shape (fresh_element l1 k v lvl)" using s1 by (intro shape_fresh)
  moreover have "links_only (fresh_element l1 k v lvl) l3"
    using fresh(5) by (rule for_range_links[rotated]) (rule stash_link_at_links)
  ultimately have "stash_shape l3" by (rule shape_links_only)
  then show ?thesis unfolding fresh(6) by (rule shape_Length)
qed

lemma shape_Get:
  assumes "stash_shape l" and "stash_Get l k = Some (Inr (l', v, found))"
  shows "stash_shape l'"
  using assms(2)
proof (cases rule: stash_Get_cases)
  case (miss c)
  then show ?thesis using assms(1) by simp
next
  case (hit a)
  then show ?thesis using assms(1) by (simp add: shape_set_visited)
qed

lemma shape_Remove:
  assumes "stash_shape l" and "stash_Remove l k = Some (Inr (l', e))"
  shows "stash_shape l'"
  using assms(2)
proof (cases rule: stash_Remove_cases)
  case (miss l1 c)
  then show ?thesis
    using assms(1) stash_getPrevElementNodes_frame shape_descent_frame by blast
next
  case (hit l1 a l2)
  have "stash_shape l1"
    using assms(1) stash_getPrevElementNodes_frame[OF hit(1)] by (rule shape_descent_frame)
  moreover have "links_only l1 l2"
    using hit(4) by (rule for_range_links[rotated]) (rule stash_unlink_at_links)
  ultimately have "stash_shape l2" by (rule shape_links_only)
  then show ?thesis unfolding hit(5) by (rule shape_Length)
qed

lemma stash_reachable_shape: "stash_reachable l \<Longrightarrow> stash_shape l"
proof (induction rule: stash_reachable.induct)
  case (stash_reachable_New m l)
  then show ?case
    by (auto simp: stash_NewWithMaxLevel_def stash_shape_def split: if_splits)
next
  case (stash_reachable_Add l k v r63 l')
  then show ?case using shape_Add by blast
next
  case (stash_reachable_Get l k l' v found)
  then show ?case using shape_Get by blast
next
  case (stash_reachable_Remove l k l' e)
  then show ?case using shape_Remove by blast
next
  case (stash_reachable_SetProbability l p)
  then show ?case by (simp add: stash_shape_def stash_SetProbability_def)
qed

subsection \<open>Promotion\<close>

lemma stash_Add_promotion:
  assumes add: "stash_Add l k v r63 = Some (Inr l')"
      and a: "a \<noteq> sallocated l" and up: "level (sheap l a) < level (sheap l' a)"
  shows "visited (sheap l a) \<and>
         (\<exists>l1. stash_getPrevElementNodes l k = Some (Inr l1) \<and>
               stash_prev_next l1 0 = Inr (Some a) \<and> stash_is_match l1 (Some a) k) \<and>
         level (sheap l' a) \<le> level (sheap l a) + 1"
  using add
proof (cases rule: stash_Add_cases)
  case (first_hit l1 b)
  have "level (sheap l' a) = level (sheap l1 a)"
    unfolding first_hit(5) by (simp add: set_visited_def)
  then have False
    using up stash_getPrevElementNodes_frame[OF first_hit(1)] by (simp add: descent_frame_def not_less[symmetric])
  then show ?thesis ..
next
  case (later_hit l1 b l2)
  note fr = stash_getPrevElementNodes_frame[OF later_hit(1)]
  have l': "level (sheap l' a) = level (sheap l2 a)"
    unfolding later_hit(6) by simp
  have le: "level (sheap l1 a) \<le> level (sheap l a)" using fr by (simp add: descent_frame_def)
  note pl = promote_levels[OF later_hit(5)]
  have "a = b"
  proof (rule ccontr)
    assume "a \<noteq> b"
    then have "level (sheap l2 a) = level (sheap l1 a)" using pl by simp
    then show False using up l' le by simp
  qed
  moreover have "visited (sheap l b)" using later_hit(4) fr by (simp add: descent_frame_def)
  moreover have "level (sheap l2 b) \<le> level (sheap l1 b) + 1" using pl by auto
  ultimately show ?thesis using later_hit(1,2,3) l' le by auto
next
  case (fresh l1 c lvl l3)
  note fr = stash_getPrevElementNodes_frame[OF fresh(1)]
  have "links_only (fresh_element l1 k v lvl) l3"
    using fresh(5) by (rule for_range_links[rotated]) (rule stash_link_at_links)
  then have "level (sheap l' a) = level (sheap (fresh_element l1 k v lvl) a)"
    unfolding fresh(6) by (simp add: links_only_def)
  moreover have "sallocated l1 = sallocated l" using fr by (simp add: descent_frame_def)
  ultimately have "level (sheap l' a) = level (sheap l1 a)"
    using a by (simp add: fresh_element_def)
  then have False
    using up fr by (simp add: descent_frame_def not_less[symmetric])
  then show ?thesis ..
qed

lemma stash_Add_fresh_element:
  assumes add: "stash_Add l k v r63 = Some (Inr l')" and al: "sallocated l' \<noteq> sallocated l"
  shows "\<exists>lvl. stash_randLevel l r63 = Inr lvl \<and>
               sallocated l' = Suc (sallocated l) \<and> sLength l' = sLength l + 1 \<and>
               level (sheap l' (sallocated l)) = lvl \<and>
               (visited (sheap l' (sallocated l)) \<longleftrightarrow> lvl = 1) \<and>
               skey (sheap l' (sallocated l)) = k \<and> svalue (sheap l' (sallocated l)) = v \<and>
               length (snext (sheap l' (sallocated l))) = nat (smaxLevel l)"
  using add
proof (cases rule: stash_Add_cases)
  case (first_hit l1 a)
  have "sallocated l' = sallocated l1" unfolding first_hit(5) by (simp add: set_visited_def)
  then have False using al stash_getPrevElementNodes_frame[OF first_hit(1)] by (simp add: descent_frame_def)
  then show ?thesis ..
next
  case (later_hit l1 a l2)
  have "sallocated l' = sallocated l1"
    unfolding later_hit(6) using promote_frame[OF later_hit(5)] by simp
  then have False using al stash_getPrevElementNodes_frame[OF later_hit(1)] by (simp add: descent_frame_def)
  then show ?thesis ..
next
  case (fresh l1 c lvl l3)
  note fr = stash_getPrevElementNodes_frame[OF fresh(1)]
  have rl: "stash_randLevel l r63 = Inr lvl"
    using fresh(4) fr by (simp add: stash_randLevel_def descent_frame_def)
  have "links_only (fresh_element l1 k v lvl) l3"
    using fresh(5) by (rule for_range_links[rotated]) (rule stash_link_at_links)
  then show ?thesis
    using rl fr unfolding fresh(6)
    by (simp add: links_only_def fresh_element_def descent_frame_def)
qed

lemma stash_Get_frame:
  assumes "stash_Get l k = Some (Inr (l', v, found))"
  shows "snext l' = snext l \<and> sLength l' = sLength l \<and> sallocated l' = sallocated l \<and>
         (\<forall>b. snext (sheap l' b) = snext (sheap l b) \<and> level (sheap l' b) = level (sheap l b) \<and>
              skey (sheap l' b) = skey (sheap l b) \<and> svalue (sheap l' b) = svalue (sheap l b))"
  using assms by (cases rule: stash_Get_cases) (auto simp: set_visited_def)

lemma stash_Remove_levels:
  assumes "stash_Remove l k = Some (Inr (l', e))"
  shows "level (sheap l' a) \<le> level (sheap l a)"
  using assms
proof (cases rule: stash_Remove_cases)
  case (miss l1 c)
  then show ?thesis using stash_getPrevElementNodes_frame[OF miss(1)] by (simp add: descent_frame_def)
next
  case (hit l1 b l2)
  have "links_only l1 l2"
    using hit(4) by (rule for_range_links[rotated]) (rule stash_unlink_at_links)
  then show ?thesis
    using stash_getPrevElementNodes_frame[OF hit(1)] unfolding hit(5)
    by (simp add: descent_frame_def links_only_def)
qed

subsection \<open>Keys do not decrease along the links\<close>

lemma stash_link_set_node_next:
  "stash_set_node_next l p i v = Inr l' \<Longrightarrow>
   stash_link l' q j = (if q = p \<and> j = i then v else stash_link l q j)"
  by (cases p; cases q) (auto simp: stash_link_def split: if_splits)

lemma stash_link_set_level [simp]: "stash_link (set_level l a n) q j = stash_link l q j"
  by (cases q) (auto simp: stash_link_def set_level_def)

lemma stash_link_set_visited [simp]: "stash_link (set_visited l a b) q j = stash_link l q j"
  by (cases q) (auto simp: stash_link_def set_visited_def)

lemma stash_link_cache [simp]: "stash_link (l\<lparr>sprevNodesCache := c\<rparr>) q j = stash_link l q j"
  by (cases q) (auto simp: stash_link_def)

lemma key_le_keys: "(\<And>a. skey (sheap l' a) = skey (sheap l a)) \<Longrightarrow> key_le l' p s = key_le l p s"
  by (cases p) (auto simp: key_le_def)

lemma key_below_keys:
  "(\<And>a. skey (sheap l' a) = skey (sheap l a)) \<Longrightarrow> sallocated l' = sallocated l \<Longrightarrow>
   key_below l' p k = key_below l p k"
  by (cases p) (auto simp: key_below_def)

lemma key_below_le: "key_below l p k \<Longrightarrow> k \<le> s \<Longrightarrow> key_le l p s"
  by (cases p) (auto simp: key_below_def key_le_def)

lemma descent_frame_keys:
  assumes "descent_frame l l'"
  shows "skey (sheap l' a) = skey (sheap l a)" and "sallocated l' = sallocated l"
    and "smaxLevel l' = smaxLevel l" and "length (sprevNodesCache l') = length (sprevNodesCache l)"
  using assms by (auto simp: descent_frame_def)

lemma links_only_keys:
  assumes "links_only l l'"
  shows "skey (sheap l' a) = skey (sheap l a)" and "sallocated l' = sallocated l"
    and "smaxLevel l' = smaxLevel l" and "sprevNodesCache l' = sprevNodesCache l"
  using assms by (auto simp: links_only_def)

lemma ordered_link:
  "stash_ordered l \<Longrightarrow> stash_link l p i = Some b \<Longrightarrow> b < sallocated l \<and> key_le l p (skey (sheap l b))"
  by (simp add: stash_ordered_def)

lemma ordered_set_node_next:
  assumes o: "stash_ordered l" and s: "stash_set_node_next l p i v = Inr l'"
      and v: "\<And>b. v = Some b \<Longrightarrow> b < sallocated l \<and> key_le l p (skey (sheap l b))"
  shows "stash_ordered l'"
proof -
  note f = links_only_keys[OF links_only_set_node_next[OF s]]
  have kl: "key_le l' q t = key_le l q t" for q t by (rule key_le_keys) (rule f(1))
  show ?thesis
    unfolding stash_ordered_def stash_link_set_node_next[OF s] f kl
    using o v by (auto simp: stash_ordered_def)
qed

lemma demote_link:
  assumes "demote l i before a nxt = Inr l'"
  shows "stash_link l' q j =
           (if q = Elem a \<and> j = i then None else if q = before \<and> j = i then nxt else stash_link l q j)"
proof -
  obtain l1 l2 where l1: "stash_set_node_next l before i nxt = Inr l1"
    and l2: "stash_set_node_next l1 (Elem a) i None = Inr l2"
    and l': "l' = set_level l2 a (level (sheap l2 a) - 1)"
    using assms unfolding demote_def by (auto dest!: bindE_Inr)
  show ?thesis
    unfolding l' stash_link_set_level stash_link_set_node_next[OF l2] stash_link_set_node_next[OF l1]
    by simp
qed

text \<open>One level of a descent.\<close>

lemma stash_advance_order_aux:
  assumes "stash_advance l k i prev nxt = Some y"
  shows "\<forall>l' p'. y = Inr (l', p') \<longrightarrow> stash_ordered l \<longrightarrow> key_below l prev k \<longrightarrow>
           stash_link l prev i = nxt \<longrightarrow>
           stash_ordered l' \<and> key_below l' p' k \<and>
           (\<forall>b. stash_link l' p' i = Some b \<longrightarrow> k \<le> skey (sheap l' b)) \<and>
           (\<forall>q j. j \<noteq> i \<longrightarrow> stash_link l' q j = stash_link l q j) \<and>
           sprevNodesCache l' = sprevNodesCache l"
proof (induct rule: stash_advance.raw_induct[OF _ assms])
  case (1 f l k i prev nxt y)
  show ?case
  proof (intro allI impI)
    fix l' p'
    assume y: "y = Inr (l', p')" and o: "stash_ordered l" and kb: "key_below l prev k"
      and lk: "stash_link l prev i = nxt"
    let ?goal = "stash_ordered l' \<and> key_below l' p' k \<and>
           (\<forall>b. stash_link l' p' i = Some b \<longrightarrow> k \<le> skey (sheap l' b)) \<and>
           (\<forall>q j. j \<noteq> i \<longrightarrow> stash_link l' q j = stash_link l q j) \<and>
           sprevNodesCache l' = sprevNodesCache l"
    show ?goal
    proof (cases nxt)
      case None
      then have "l' = l" "p' = prev" using 1(2) y by auto
      then show ?thesis using o kb lk None by simp
    next
      case (Some a)
      have a: "a < sallocated l" and pa: "key_le l prev (skey (sheap l a))"
        using ordered_link[OF o, of prev i a] lk Some by auto
      show ?thesis
      proof (cases "skey (sheap l a) < k")
        case False
        then have "l' = l" "p' = prev" using 1(2) y Some by auto
        then show ?thesis using o kb lk Some False by (simp add: not_less)
      next
        case True
        then have len: "i < length (snext (sheap l a))"
          using 1(2) y Some by (auto split: if_splits)
        let ?n = "snext (sheap l a) ! i"
        have lka: "stash_link l (Elem a) i = ?n" using len by (simp add: stash_link_def)
        have kba: "key_below l (Elem a) k" using a True by (simp add: key_below_def)
        show ?thesis
        proof (cases "0 < i \<and> ?n \<noteq> None \<and> k = skey (sheap l (the ?n)) \<and> \<not> visited (sheap l a)")
          case False
          then have "f l k i (Elem a) ?n = Some y"
            using 1(2) Some True len by (auto simp: Let_def)
          then show ?thesis using 1(1) y o kba lka by blast
        next
          case dem: True
          then obtain b where b: "?n = Some b" by auto
          have d: "demote l i prev a ?n = Inr l'" and p': "p' = Elem a"
            using 1(2) y Some True len dem by (auto simp: Let_def dest!: bindE_Inr)
          note df = descent_frame_keys[OF demote_frame[OF d]]
          have lb: "b < sallocated l" and ab: "skey (sheap l a) \<le> skey (sheap l b)"
            using ordered_link[OF o, of "Elem a" i b] lka b by (auto simp: key_le_def)
          have pb: "key_le l prev (skey (sheap l b))"
            using pa ab by (cases prev) (auto simp: key_le_def)
          have kl: "key_le l' q t = key_le l q t" for q t by (rule key_le_keys) (rule df(1))
          obtain l1 l2 where l1: "stash_set_node_next l prev i ?n = Inr l1"
            and l2: "stash_set_node_next l1 (Elem a) i None = Inr l2"
            and l'eq: "l' = set_level l2 a (level (sheap l2 a) - 1)"
            using d unfolding demote_def by (auto dest!: bindE_Inr)
          have c1: "sprevNodesCache l2 = sprevNodesCache l"
            using links_only_keys(4)[OF links_only_set_node_next[OF l1]]
              links_only_keys(4)[OF links_only_set_node_next[OF l2]] by simp
          have cache: "sprevNodesCache l' = sprevNodesCache l"
            unfolding l'eq using c1 by (simp add: set_level_def)
          have "stash_ordered l'"
            unfolding stash_ordered_def demote_link[OF d] df kl
            using o lb pb b cache df(3) by (auto simp: stash_ordered_def)
          moreover have "key_below l' p' k"
            unfolding p' using kba df by (simp add: key_below_def)
          moreover have "\<forall>b. stash_link l' p' i = Some b \<longrightarrow> k \<le> skey (sheap l' b)"
            unfolding p' demote_link[OF d] by simp
          moreover have "\<forall>q j. j \<noteq> i \<longrightarrow> stash_link l' q j = stash_link l q j"
            unfolding demote_link[OF d] by simp
          ultimately show ?thesis using cache by blast
        qed
      qed
    qed
  qed
qed

lemma stash_advance_order:
  assumes "stash_advance l k i prev nxt = Some (Inr (l', p'))"
      and "stash_ordered l" and "key_below l prev k" and "stash_link l prev i = nxt"
  shows "stash_ordered l'" and "key_below l' p' k"
    and "\<And>b. stash_link l' p' i = Some b \<Longrightarrow> k \<le> skey (sheap l' b)"
    and "\<And>q j. j \<noteq> i \<Longrightarrow> stash_link l' q j = stash_link l q j"
    and "sprevNodesCache l' = sprevNodesCache l"
  using stash_advance_order_aux[OF assms(1)] assms(2,3,4) by blast+

lemma ordered_cong:
  assumes "\<And>q j. stash_link l' q j = stash_link l q j"
      and "\<And>a. skey (sheap l' a) = skey (sheap l a)"
      and "sallocated l' = sallocated l"
      and "length (sprevNodesCache l') = length (sprevNodesCache l)"
      and "smaxLevel l' = smaxLevel l"
  shows "stash_ordered l' = stash_ordered l"
proof -
  have kl: "key_le l' q t = key_le l q t" for q t by (rule key_le_keys) (rule assms(2))
  show ?thesis unfolding stash_ordered_def assms kl ..
qed

lemma finger_cong:
  assumes "finger l k i"
      and "\<And>q. stash_link l' q i = stash_link l q i"
      and "\<And>a. skey (sheap l' a) = skey (sheap l a)"
      and "sallocated l' = sallocated l"
      and "length (sprevNodesCache l') = length (sprevNodesCache l)"
      and "sprevNodesCache l' ! i = sprevNodesCache l ! i"
  shows "finger l' k i"
proof -
  have kb: "key_below l' q t = key_below l q t" for q t
    by (rule key_below_keys) (rule assms(3), rule assms(4))
  show ?thesis using assms(1) unfolding finger_def assms(2,3,5,6) kb .
qed

text \<open>A whole descent.\<close>

lemma stash_descend_order:
  assumes "stash_descend n k prev l = Some (Inr l')" and "stash_ordered l" and "key_below l prev k"
  shows "stash_ordered l' \<and> (\<forall>i<n. finger l' k i) \<and>
         (\<forall>q j. n \<le> j \<longrightarrow> stash_link l' q j = stash_link l q j) \<and>
         (\<forall>j. n \<le> j \<longrightarrow> sprevNodesCache l' ! j = sprevNodesCache l ! j)"
  using assms
proof (induction n arbitrary: prev l)
  case 0
  then show ?case by simp
next
  case (Suc i)
  let ?c = "\<lambda>l1 p1. l1\<lparr>sprevNodesCache := (sprevNodesCache l1)[i := Some p1]\<rparr>"
  from Suc.prems(1) obtain l1 p1 where
    len: "i < length (stash_node_next l prev)"
    and a: "stash_advance l k i prev (stash_node_next l prev ! i) = Some (Inr (l1, p1))"
    and lc: "i < length (sprevNodesCache l1)"
    and d: "stash_descend i k p1 (?c l1 p1) = Some (Inr l')"
    by (auto split: if_splits option.splits sum.splits)
  have lk: "stash_link l prev i = stash_node_next l prev ! i" using len by (simp add: stash_link_def)
  note adv = stash_advance_order[OF a Suc.prems(2,3) lk]
  have "stash_ordered (?c l1 p1) = stash_ordered l1"
    by (rule ordered_cong) simp_all
  then have o1: "stash_ordered (?c l1 p1)" using adv(1) by simp
  have kc: "key_below (?c l1 p1) q t = key_below l1 q t" for q t
    by (rule key_below_keys) simp_all
  have k1: "key_below (?c l1 p1) p1 k"
    using adv(2) by (simp add: kc)
  note ih = Suc.IH[OF d o1 k1]
  note df = descent_frame_keys[OF stash_descend_frame[OF d]]
  have f1: "finger (?c l1 p1) k i"
    unfolding finger_def kc using lc adv(2,3) by simp
  have fi: "finger l' k i"
  proof (rule finger_cong[OF f1])
    show "stash_link l' q i = stash_link (?c l1 p1) q i" for q using ih by simp
    show "skey (sheap l' a) = skey (sheap (?c l1 p1) a)" for a by (rule df(1))
    show "sallocated l' = sallocated (?c l1 p1)" by (rule df(2))
    show "length (sprevNodesCache l') = length (sprevNodesCache (?c l1 p1))" by (rule df(4))
    show "sprevNodesCache l' ! i = sprevNodesCache (?c l1 p1) ! i" using ih by simp
  qed
  have "\<forall>j<Suc i. finger l' k j" using ih fi by (auto simp: less_Suc_eq)
  moreover have "\<forall>q j. Suc i \<le> j \<longrightarrow> stash_link l' q j = stash_link l q j"
  proof (intro allI impI)
    fix q j assume j: "Suc i \<le> j"
    then have "stash_link l' q j = stash_link (?c l1 p1) q j" using ih by simp
    also have "\<dots> = stash_link l1 q j" by simp
    also have "\<dots> = stash_link l q j" using adv(4)[of j q] j by simp
    finally show "stash_link l' q j = stash_link l q j" .
  qed
  moreover have "\<forall>j. Suc i \<le> j \<longrightarrow> sprevNodesCache l' ! j = sprevNodesCache l ! j"
  proof (intro allI impI)
    fix j assume j: "Suc i \<le> j"
    then have "sprevNodesCache l' ! j = sprevNodesCache (?c l1 p1) ! j" using ih by simp
    also have "\<dots> = sprevNodesCache l1 ! j" using j by simp
    finally show "sprevNodesCache l' ! j = sprevNodesCache l ! j" using adv(5) by simp
  qed
  ultimately show ?case using ih by blast
qed

lemma stash_getPrevElementNodes_order:
  assumes "stash_getPrevElementNodes l k = Some (Inr l1)" and "stash_ordered l"
  shows "stash_ordered l1" and "\<And>i. i < nat (smaxLevel l1) \<Longrightarrow> finger l1 k i"
proof -
  note d = stash_descend_order[OF assms(1)[unfolded stash_getPrevElementNodes_def] assms(2)]
  have kb: "key_below l Head k" by (simp add: key_below_def)
  show "stash_ordered l1" using d kb by blast
  have "smaxLevel l1 = smaxLevel l"
    using descent_frame_keys(3)[OF stash_getPrevElementNodes_frame[OF assms(1)]] .
  then show "finger l1 k i" if "i < nat (smaxLevel l1)" for i using d kb that by simp
qed

lemma finger_prev_at:
  assumes "finger l k i"
  shows "\<exists>p. stash_prev_at l (int i) = Inr p \<and> key_below l p k \<and>
             (\<forall>b. stash_link l p i = Some b \<longrightarrow> k \<le> skey (sheap l b))"
  using assms unfolding finger_def stash_prev_at_def by auto

lemma stash_prev_next_link:
  assumes "stash_prev_next l (int i) = Inr n"
  obtains p where "stash_prev_at l (int i) = Inr p" and "n = stash_link l p i"
  using assms unfolding stash_prev_next_def
  by (auto dest!: bindE_Inr simp: stash_link_def split: if_splits)

text \<open>The candidate of a descent, when it matches.\<close>

lemma ordered_candidate:
  assumes o: "stash_ordered l" and g: "stash_getPrevElementNodes l k = Some (Inr l1)"
      and c: "stash_prev_next l1 0 = Inr (Some a)" and m: "stash_is_match l1 (Some a) k"
  shows "skey (sheap l1 a) = k" and "a < sallocated l1"
proof -
  note o1 = stash_getPrevElementNodes_order(1)[OF g o]
  obtain p where p: "stash_prev_at l1 (int 0) = Inr p" and n: "Some a = stash_link l1 p 0"
    using c stash_prev_next_link[of l1 0 "Some a"] by auto
  show "a < sallocated l1" using ordered_link[OF o1, of p 0 a] n by simp
  have lc: "0 < length (sprevNodesCache l1)"
    using p by (auto simp: stash_prev_at_def split: if_splits)
  have le: "length (sprevNodesCache l1) = nat (smaxLevel l1)"
    using o1 by (simp add: stash_ordered_def)
  have "0 < nat (smaxLevel l1)" using lc unfolding le .
  moreover have "smaxLevel l1 = smaxLevel l"
    using descent_frame_keys(3)[OF stash_getPrevElementNodes_frame[OF g]] .
  ultimately have "k \<le> skey (sheap l1 a)"
    using stash_descend_candidate[OF g[unfolded stash_getPrevElementNodes_def] _ c] by simp
  then show "skey (sheap l1 a) = k" using m by (simp add: stash_is_match_def)
qed

text \<open>Linking an element with the key \<open>k\<close> behind the node recorded at a level.\<close>

lemma stash_link_at_order:
  assumes o: "stash_ordered l" and f: "finger l k j" and a: "a < sallocated l"
      and ka: "skey (sheap l a) = k" and s: "stash_link_at a (int j) l = Inr l'"
  shows "stash_ordered l'" and "links_only l l'"
    and "\<And>q j'. j' \<noteq> j \<Longrightarrow> stash_link l' q j' = stash_link l q j'"
proof -
  obtain n l1 where n: "stash_prev_next l (int j) = Inr n"
    and l1: "stash_set_node_next l (Elem a) j n = Inr l1"
    and l': "stash_set_prev_next l1 (int j) (Some a) = Inr l'"
    using s unfolding stash_link_at_def by (auto dest!: bindE_Inr)
  obtain p where p: "stash_prev_at l (int j) = Inr p" and kb: "key_below l p k"
    and up: "\<And>b. stash_link l p j = Some b \<Longrightarrow> k \<le> skey (sheap l b)"
    using finger_prev_at[OF f] by blast
  have nl: "n = stash_link l p j"
    using n p stash_prev_next_link[of l j n] by auto
  note f1 = links_only_keys[OF links_only_set_node_next[OF l1]]
  have p1: "stash_prev_at l1 (int j) = Inr p" using p unfolding stash_prev_at_def f1(4) .
  have s2: "stash_set_node_next l1 p j (Some a) = Inr l'"
    using l' p1 unfolding stash_set_prev_next_def by (simp add: bindE_def)
  have o1: "stash_ordered l1"
  proof (rule ordered_set_node_next[OF o l1])
    fix b assume b: "n = Some b"
    then have "b < sallocated l" using ordered_link[OF o, of p j b] nl by simp
    moreover have "k \<le> skey (sheap l b)" using up b nl by simp
    ultimately show "b < sallocated l \<and> key_le l (Elem a) (skey (sheap l b))"
      using ka by (simp add: key_le_def)
  qed
  have kb1: "key_below l1 p k" using kb by (simp add: key_below_keys[OF f1(1) f1(2)])
  show "stash_ordered l'"
  proof (rule ordered_set_node_next[OF o1 s2])
    fix b assume "Some a = Some b"
    then have "b = a" by simp
    then show "b < sallocated l1 \<and> key_le l1 p (skey (sheap l1 b))"
      using a ka kb1 f1 by (auto intro: key_below_le)
  qed
  show "links_only l l'"
    using links_only_set_node_next[OF l1] links_only_set_node_next[OF s2] by (rule links_only_trans)
  show "stash_link l' q j' = stash_link l q j'" if "j' \<noteq> j" for q j'
    unfolding stash_link_set_node_next[OF s2] stash_link_set_node_next[OF l1] using that by simp
qed

lemma stash_link_head_visited [simp]: "stash_link (l\<lparr>visited := b\<rparr>) q j = stash_link l q j"
  by (cases q) (auto simp: stash_link_def)

lemma stash_link_value [simp]:
  "stash_link (l\<lparr>sheap := (sheap l)(a := (sheap l a)\<lparr>svalue := v\<rparr>)\<rparr>) q j = stash_link l q j"
  by (cases q) (auto simp: stash_link_def)

lemma stash_link_Length [simp]: "stash_link (l\<lparr>sLength := n\<rparr>) q j = stash_link l q j"
  by (cases q) (auto simp: stash_link_def)

lemma ordered_set_visited: "stash_ordered (set_visited l a b) = stash_ordered l"
  by (rule ordered_cong) (simp, simp_all add: set_visited_def)

lemma ordered_set_level: "stash_ordered (set_level l a n) = stash_ordered l"
  by (rule ordered_cong) (simp, simp_all add: set_level_def)

lemma ordered_head_visited: "stash_ordered (l\<lparr>visited := b\<rparr>) = stash_ordered l"
  by (rule ordered_cong) simp_all

lemma ordered_value:
  "stash_ordered (l\<lparr>sheap := (sheap l)(a := (sheap l a)\<lparr>svalue := v\<rparr>)\<rparr>) = stash_ordered l"
  by (rule ordered_cong) simp_all

lemma ordered_Length: "stash_ordered (l\<lparr>sLength := n\<rparr>) = stash_ordered l"
  by (rule ordered_cong) simp_all

text \<open>Promotion.\<close>

lemma promote_order:
  assumes o: "stash_ordered l" and f: "\<And>i. i < nat (smaxLevel l) \<Longrightarrow> finger l k i"
      and a: "a < sallocated l" and ka: "skey (sheap l a) = k" and p: "promote l a = Inr l'"
  shows "stash_ordered l'"
  using p
proof (cases rule: promote_cases)
  case same
  then show ?thesis using o by simp
next
  case (promoted l1 p)
  let ?lvl = "level (sheap l a)"
  have i: "?lvl = int (nat ?lvl)" and n: "nat ?lvl < nat (smaxLevel l)"
    using promoted(4,5) by auto
  have "stash_link_at a (int (nat ?lvl)) l = Inr l1" using promoted(1) i by simp
  then have "stash_ordered l1" by (rule stash_link_at_order(1)[OF o f[OF n] a ka])
  then show ?thesis
    unfolding promoted(3) by (cases p) (simp_all add: ordered_set_level ordered_set_visited ordered_head_visited)
qed

text \<open>The new element of \<open>Add\<close> and the loop that links it.\<close>

lemma fresh_link:
  "stash_link (fresh_element l k v lvl) q j =
     (if q = Elem (sallocated l) then None else stash_link l q j)"
  by (cases q) (auto simp: stash_link_def fresh_element_def)

lemma fresh_order:
  assumes o: "stash_ordered l"
  shows "stash_ordered (fresh_element l k v lvl)"
  unfolding stash_ordered_def
proof (intro conjI allI impI)
  show "length (sprevNodesCache (fresh_element l k v lvl)) = nat (smaxLevel (fresh_element l k v lvl))"
    using o by (simp add: stash_ordered_def fresh_element_def)
next
  fix p i b
  assume "stash_link (fresh_element l k v lvl) p i = Some b"
  then have p: "p \<noteq> Elem (sallocated l)" and lk: "stash_link l p i = Some b"
    by (auto simp: fresh_link split: if_splits)
  note ol = ordered_link[OF o lk]
  then show "b < sallocated (fresh_element l k v lvl)" by (simp add: fresh_element_def)
  show "key_le (fresh_element l k v lvl) p (skey (sheap (fresh_element l k v lvl) b))"
    using ol p by (cases p) (auto simp: key_le_def fresh_element_def)
qed

lemma fresh_finger:
  assumes o: "stash_ordered l" and f: "finger l k i"
  shows "finger (fresh_element l k v lvl) k i"
proof -
  obtain p where i: "i < length (sprevNodesCache l)" and p: "sprevNodesCache l ! i = Some p"
    and kb: "key_below l p k" and up: "\<And>b. stash_link l p i = Some b \<Longrightarrow> k \<le> skey (sheap l b)"
    using f unfolding finger_def by blast
  have pa: "p \<noteq> Elem (sallocated l)" using kb by (auto simp: key_below_def)
  have "key_below (fresh_element l k v lvl) p k"
    using kb by (cases p) (auto simp: key_below_def fresh_element_def)
  moreover have "k \<le> skey (sheap (fresh_element l k v lvl) b)"
    if "stash_link (fresh_element l k v lvl) p i = Some b" for b
  proof -
    have lk: "stash_link l p i = Some b" using that pa by (simp add: fresh_link)
    then have "b < sallocated l" using ordered_link[OF o] by blast
    then show ?thesis using up[OF lk] by (simp add: fresh_element_def)
  qed
  ultimately show ?thesis
    unfolding finger_def using i p by (auto simp: fresh_element_def)
qed

lemma link_loop_order:
  assumes "for_range (\<lambda>i. stash_link_at a (int i)) js l = Inr l'"
      and "stash_ordered l" and "\<forall>j \<in> set js. finger l k j" and "distinct js"
      and "a < sallocated l" and "skey (sheap l a) = k"
  shows "stash_ordered l'"
  using assms
proof (induction js arbitrary: l)
  case Nil
  then show ?case by simp
next
  case (Cons i js)
  from Cons.prems(1) obtain l1 where s: "stash_link_at a (int i) l = Inr l1"
    and r: "for_range (\<lambda>i. stash_link_at a (int i)) js l1 = Inr l'"
    by (auto split: sum.splits)
  have fi: "finger l k i" using Cons.prems(3) by simp
  note st = stash_link_at_order[OF Cons.prems(2) fi Cons.prems(5,6) s]
  note lo = links_only_keys[OF st(2)]
  have "\<forall>j \<in> set js. finger l1 k j"
  proof
    fix j assume j: "j \<in> set js"
    then have ne: "j \<noteq> i" using Cons.prems(4) by auto
    have fj: "finger l k j" using Cons.prems(3) j by simp
    show "finger l1 k j"
      by (rule finger_cong[OF fj]) (simp_all add: st(3)[OF ne] lo)
  qed
  moreover have "distinct js" using Cons.prems(4) by simp
  moreover have "a < sallocated l1" "skey (sheap l1 a) = k" using Cons.prems(5,6) lo by simp_all
  ultimately show ?case using Cons.IH[OF r st(1)] by blast
qed

text \<open>The loop of \<open>Remove\<close>.\<close>

lemma unlink_loop_order:
  assumes "for_range (stash_unlink_at a) js l = Inr l'"
      and "stash_ordered l"
      and "\<forall>j < nat (smaxLevel l). \<exists>p. sprevNodesCache l ! j = Some p \<and> key_below l p k"
      and "skey (sheap l a) = k"
  shows "stash_ordered l'"
  using assms
proof (induction js arbitrary: l)
  case Nil
  then show ?case by simp
next
  case (Cons i js)
  from Cons.prems(1) obtain l1 where s: "stash_unlink_at a i l = Inr l1"
    and r: "for_range (stash_unlink_at a) js l1 = Inr l'"
    by (auto split: sum.splits)
  let ?v = "snext (sheap l a) ! i"
  have len: "i < length (snext (sheap l a))"
    and sp: "stash_set_prev_next l (int i) ?v = Inr l1"
    using s unfolding stash_unlink_at_def by (auto split: if_splits)
  obtain p where p: "stash_prev_at l (int i) = Inr p" and sn: "stash_set_node_next l p i ?v = Inr l1"
    using sp unfolding stash_set_prev_next_def by (auto dest!: bindE_Inr)
  have ic: "i < length (sprevNodesCache l)" and pc: "sprevNodesCache l ! i = Some p"
    using p unfolding stash_prev_at_def by (auto split: if_splits option.splits)
  have "length (sprevNodesCache l) = nat (smaxLevel l)"
    using Cons.prems(2) by (simp add: stash_ordered_def)
  then have kb: "key_below l p k" using Cons.prems(3) ic pc by auto
  have lv: "stash_link l (Elem a) i = ?v" using len by (simp add: stash_link_def)
  have o1: "stash_ordered l1"
  proof (rule ordered_set_node_next[OF Cons.prems(2) sn])
    fix b assume b: "?v = Some b"
    note ol = ordered_link[OF Cons.prems(2), of "Elem a" i b]
    have "b < sallocated l" and "k \<le> skey (sheap l b)"
      using ol lv b Cons.prems(4) by (auto simp: key_le_def)
    then show "b < sallocated l \<and> key_le l p (skey (sheap l b))"
      using kb by (auto intro: key_below_le)
  qed
  note lo = links_only_keys[OF links_only_set_node_next[OF sn]]
  have kk: "key_below l1 q t = key_below l q t" for q t
    by (rule key_below_keys) (rule lo(1), rule lo(2))
  have "\<forall>j < nat (smaxLevel l1). \<exists>p. sprevNodesCache l1 ! j = Some p \<and> key_below l1 p k"
    unfolding lo kk using Cons.prems(3) .
  moreover have "skey (sheap l1 a) = k" using Cons.prems(4) lo by simp
  ultimately show ?case using Cons.IH[OF r o1] by blast
qed

text \<open>Every operation keeps the order of the links.\<close>

lemma ordered_Add:
  assumes o: "stash_ordered l" and sh: "stash_shape l" and add: "stash_Add l k v r63 = Some (Inr l')"
  shows "stash_ordered l'"
  using add
proof (cases rule: stash_Add_cases)
  case (first_hit l1 a)
  have "stash_ordered l1" using stash_getPrevElementNodes_order(1)[OF first_hit(1) o] .
  then show ?thesis unfolding first_hit(5) by (simp add: ordered_value ordered_set_visited)
next
  case (later_hit l1 a l2)
  note g = stash_getPrevElementNodes_order[OF later_hit(1) o]
  note c = ordered_candidate[OF o later_hit(1,2,3)]
  have "stash_ordered l2" using promote_order[OF g(1) g(2) c(2) c(1) later_hit(5)] by simp
  then show ?thesis unfolding later_hit(6) by (simp add: ordered_value)
next
  case (fresh l1 c lvl l3)
  note g = stash_getPrevElementNodes_order[OF fresh(1) o]
  have sh1: "stash_shape l1"
    using sh stash_getPrevElementNodes_frame[OF fresh(1)] by (rule shape_descent_frame)
  then have m: "1 \<le> smaxLevel l1" by (simp add: stash_shape_def)
  have lvl: "lvl \<le> smaxLevel l1" using stash_randLevel_le[OF fresh(4) m] by simp
  let ?l2 = "fresh_element l1 k v lvl"
  have o2: "stash_ordered ?l2" using g(1) by (rule fresh_order)
  have f2: "\<forall>j \<in> set [0..<nat lvl]. finger ?l2 k j"
  proof
    fix j assume "j \<in> set [0..<nat lvl]"
    then have "j < nat (smaxLevel l1)" using lvl by auto
    then show "finger ?l2 k j" using fresh_finger[OF g(1) g(2)] by blast
  qed
  have "stash_ordered l3"
    by (rule link_loop_order[OF fresh(5) o2 f2]) (simp_all add: fresh_element_def)
  then show ?thesis unfolding fresh(6) by (simp add: ordered_Length)
qed

lemma ordered_Remove:
  assumes o: "stash_ordered l" and rm: "stash_Remove l k = Some (Inr (l', e))"
  shows "stash_ordered l'"
  using rm
proof (cases rule: stash_Remove_cases)
  case (miss l1 c)
  then show ?thesis using stash_getPrevElementNodes_order(1)[OF miss(1) o] by simp
next
  case (hit l1 a l2)
  note g = stash_getPrevElementNodes_order[OF hit(1) o]
  note c = ordered_candidate[OF o hit(1,2,3)]
  have "\<forall>j < nat (smaxLevel l1). \<exists>p. sprevNodesCache l1 ! j = Some p \<and> key_below l1 p k"
    using g(2) unfolding finger_def by blast
  then have "stash_ordered l2" using unlink_loop_order[OF hit(4) g(1) _ c(1)] by blast
  then show ?thesis unfolding hit(5) by (simp add: ordered_Length)
qed

lemma ordered_Get:
  assumes o: "stash_ordered l" and g: "stash_Get l k = Some (Inr (l', v, found))"
  shows "stash_ordered l'"
  using g
proof (cases rule: stash_Get_cases)
  case (miss c)
  then show ?thesis using o by simp
next
  case (hit a)
  then show ?thesis using o by (simp add: ordered_set_visited)
qed

lemma ordered_New: "stash_NewWithMaxLevel m = Inr l \<Longrightarrow> stash_ordered l"
  unfolding stash_ordered_def
proof (intro conjI allI impI)
  assume n: "stash_NewWithMaxLevel m = Inr l"
  then show "length (sprevNodesCache l) = nat (smaxLevel l)"
    by (auto simp: stash_NewWithMaxLevel_def split: if_splits)
  fix p i b assume "stash_link l p i = Some b"
  then have False
    using n by (cases p) (auto simp: stash_NewWithMaxLevel_def stash_link_def split: if_splits)
  then show "b < sallocated l" and "key_le l p (skey (sheap l b))" by simp_all
qed

lemma ordered_SetProbability: "stash_ordered (stash_SetProbability l p) = stash_ordered l"
proof (rule ordered_cong)
  show "stash_link (stash_SetProbability l p) q j = stash_link l q j" for q j
    by (cases q) (auto simp: stash_link_def stash_SetProbability_def)
qed (simp_all add: stash_SetProbability_def)

lemma stash_reachable_ordered: "stash_reachable l \<Longrightarrow> stash_ordered l"
proof (induction rule: stash_reachable.induct)
  case (stash_reachable_New m l)
  then show ?case by (rule ordered_New)
next
  case (stash_reachable_Add l k v r63 l')
  then show ?case using ordered_Add stash_reachable_shape by blast
next
  case (stash_reachable_Get l k l' v found)
  then show ?case using ordered_Get by blast
next
  case (stash_reachable_Remove l k l' e)
  then show ?case using ordered_Remove by blast
next
  case (stash_reachable_SetProbability l p)
  then show ?case by (simp add: ordered_SetProbability)
qed

text \<open>Keys do not decrease along any link of the adaptive index, whatever calls built it.\<close>

lemma stash_links_ordered:
  assumes "stash_reachable l" and "i < length (snext (sheap l a))"
      and "snext (sheap l a) ! i = Some b"
  shows "skey (sheap l a) \<le> skey (sheap l b)" and "b < sallocated l"
proof -
  have "stash_link l (Elem a) i = Some b" using assms(2,3) by (simp add: stash_link_def)
  then show "skey (sheap l a) \<le> skey (sheap l b)" and "b < sallocated l"
    using ordered_link[OF stash_reachable_ordered[OF assms(1)], of "Elem a" i b]
    by (simp_all add: key_le_def)
qed

section \<open>Runs, and what the baseline index guarantees\<close>

subsection \<open>Evaluating the operations on concrete lists\<close>

lemma exp_one_ge_two: "\<not> exp (1::real) < 2"
  using exp_ge_add_one_self[of "1::real"] by simp

lemmas stash_eval =
  stash_run_def observe_def then_Get_def then_descent_def stash_NewWithMaxLevel_def stash_Add_def
  stash_getPrevElementNodes_def stash_advance.simps stash_walk.simps stash_prev_next_def
  stash_prev_at_def bindE_def stash_is_match_def stash_randLevel_def randLevel_loop.simps
  probabilityTable_def stash_Get_def DefaultProbability_def stash_link_at_def
  stash_set_prev_next_def numeral_2_eq_2 stash_Remove_def stash_unlink_at_def demote_def
  promote_def set_visited_def set_level_def stash_level_chain_def exp_one_ge_two Let_def

subsection \<open>Runs build reachable lists\<close>

lemma stash_steps_reachable:
  "stash_reachable l \<Longrightarrow> stash_steps ops l = Some (Inr l') \<Longrightarrow> stash_reachable l'"
proof (induction ops arbitrary: l)
  case Nil
  then show ?case by simp
next
  case (Cons x ops)
  then obtain l1 where s: "stash_step l x = Some (Inr l1)" and r: "stash_steps ops l1 = Some (Inr l')"
    by (auto split: option.splits sum.splits)
  have "stash_reachable l1"
  proof (cases x)
    case (OpAdd k v r63)
    then show ?thesis using s Cons.prems(1) by (auto intro: stash_reachable_Add)
  next
    case (OpGet k)
    then obtain y where "stash_Get l k = Some (Inr y)" and "fst y = l1"
      using s by (cases "stash_Get l k") (auto simp: map_sum_def split: sum.splits)
    then show ?thesis using Cons.prems(1) by (cases y) (auto intro: stash_reachable_Get)
  next
    case (OpRemove k)
    then obtain y where "stash_Remove l k = Some (Inr y)" and "fst y = l1"
      using s by (cases "stash_Remove l k") (auto simp: map_sum_def split: sum.splits)
    then show ?thesis using Cons.prems(1) by (cases y) (auto intro: stash_reachable_Remove)
  qed
  then show ?case using Cons.IH r by blast
qed

lemma stash_run_reachable: "stash_run m ops = Some (Inr l) \<Longrightarrow> stash_reachable l"
  unfolding stash_run_def
  by (auto split: sum.splits intro: stash_steps_reachable stash_reachable_New)

lemmas skip_eval =
  run_def result_def NewWithMaxLevel_def Add_def getPrevElementNodes_def advance.simps
  prev_next_def prev_at_def bindE_def is_match_def randLevel_def randLevel_loop.simps
  probabilityTable_def Get_def DefaultProbability_def link_at_def set_prev_next_def
  numeral_2_eq_2 Remove_def unlink_at_def level_chain_def exp_one_ge_two Let_def

lemma steps_reachable:
  "reachable l \<Longrightarrow> steps ops l = Some (Inr l') \<Longrightarrow> reachable l'"
proof (induction ops arbitrary: l)
  case Nil
  then show ?case by simp
next
  case (Cons x ops)
  then obtain l1 where s: "step l x = Some (Inr l1)" and r: "steps ops l1 = Some (Inr l')"
    by (auto split: option.splits sum.splits)
  have "reachable l1"
  proof (cases x)
    case (OpAdd k v r63)
    then show ?thesis using s Cons.prems(1) by (auto intro: reachable_Add)
  next
    case (OpGet k)
    then have "l1 = l"
      using s by (cases "Get l k") (auto simp: map_sum_def split: sum.splits)
    then show ?thesis using Cons.prems(1) by simp
  next
    case (OpRemove k)
    then obtain y where "Remove l k = Some (Inr y)" and "fst y = l1"
      using s by (cases "Remove l k") (auto simp: map_sum_def split: sum.splits)
    then show ?thesis using Cons.prems(1) by (cases y) (auto intro: reachable_Remove)
  qed
  then show ?case using Cons.IH r by blast
qed

lemma run_reachable: "run m ops = Some (Inr l) \<Longrightarrow> reachable l"
  unfolding run_def
  by (auto split: sum.splits intro: steps_reachable reachable_New)

subsection \<open>The baseline index: link arrays\<close>

lemma Add_heights:
  assumes "skiplist_inv list xs" and "Add list k v r63 = Some (Inr list')" and "a \<noteq> allocated list"
  shows "height list' a = height list a"
proof (cases "hit list k xs")
  case None
  then show ?thesis using Add_fresh[OF assms(1) None, of v r63] assms(2,3) by auto
next
  case (Some b)
  then show ?thesis using Add_hit[OF assms(1) Some, of v r63] assms(2) by (auto simp: height_def)
qed

lemma Remove_heights:
  assumes "skiplist_inv list xs" and "Remove list k = Some (Inr (list', e))"
  shows "height list' a = height list a"
proof (cases "hit list k xs")
  case None
  then show ?thesis using Remove_miss[OF assms(1) None] assms(2) by (auto simp: height_def)
next
  case (Some b)
  then show ?thesis using Remove_hit[OF assms(1) Some] assms(2) by (auto simp: frame_def height_def)
qed

subsection \<open>The match test after a descent\<close>

lemma find_dropWhile: "first_ptr (dropWhile P xs) = find (\<lambda>a. \<not> P a) xs"
  by (induction xs) (auto simp: first_ptr_def)

lemma descent_candidate_reachable:
  assumes "reachable list"
  shows "\<exists>l1. getPrevElementNodes list k = Some (Inr l1) \<and>
              prev_next l1 0 = Inr (find (\<lambda>a. k \<le> key (heap list a)) (level_chain list 0))"
proof -
  let ?xs = "level_chain list 0"
  have inv: "skiplist_inv list ?xs" using assms by (rule reachable_elements)
  obtain c where g: "getPrevElementNodes list k = Some (Inr (list\<lparr>prevNodesCache := c\<rparr>))"
    and len: "length c = nat (maxLevel list)"
    and c: "\<forall>j<nat (maxLevel list). c ! j = Some (pred_at list k ?xs j)"
    using getPrevElementNodes_inv[OF inv] by blast
  have "first_ptr (upper list k ?xs) = find (\<lambda>a. k \<le> key (heap list a)) ?xs"
    unfolding upper_def find_dropWhile by (simp add: not_less)
  then show ?thesis using g candidate_after_descent(1)[OF inv len c] by auto
qed

text \<open>
  The match test after a descent, candidate key \<open><=\<close> search key, amounts to equality of
  the keys.  In both indexes, in any list with at least one level, the candidate
  \<open>prevs[0].next[0]\<close> that a descent leaves is \<open>nil\<close> or an element whose key is not below
  the search key; so the match test holds exactly when the candidate is an element whose
  key is the search key.  A \<open>Get\<close> that reports a hit returns the value of the element at
  which its descent ended, and the key of that element is the search key: no hit is
  reported against a larger key.  In a baseline list built from a constructor the
  candidate is the first element of level 0 whose key is not below the search key, every
  descent returns, and \<open>Get\<close> reports a hit exactly when an element of level 0 has the
  key.
\<close>

lemma match_is_key_equality:
  "(1 \<le> maxLevel list \<and> getPrevElementNodes list k = Some (Inr l1) \<and> prev_next l1 0 = Inr c \<longrightarrow>
      is_match l1 c k = (\<exists>a. c = Some a \<and> key (heap l1 a) = k) \<and>
      (\<forall>a. c = Some a \<longrightarrow> k \<le> key (heap l1 a))) \<and>
   (Get list k = Some (Inr (v, True)) \<longrightarrow>
      (\<exists>a. search (nat (maxLevel list)) k Head None list = Some (Inr (Some a)) \<and>
           key (heap list a) = k \<and> value (heap list a) = v)) \<and>
   (reachable list \<longrightarrow>
      (\<exists>l2. getPrevElementNodes list k = Some (Inr l2) \<and>
            prev_next l2 0 = Inr (find (\<lambda>a. k \<le> key (heap list a)) (level_chain list 0))) \<and>
      (\<exists>w found. Get list k = Some (Inr (w, found)) \<and>
            found = (\<exists>a \<in> set (level_chain list 0). key (heap list a) = k))) \<and>
   (1 \<le> smaxLevel sl \<and> stash_getPrevElementNodes sl k = Some (Inr sl1) \<and> stash_prev_next sl1 0 = Inr sc \<longrightarrow>
      stash_is_match sl1 sc k = (\<exists>a. sc = Some a \<and> skey (sheap sl1 a) = k) \<and>
      (\<forall>a. sc = Some a \<longrightarrow> k \<le> skey (sheap sl1 a))) \<and>
   (stash_Get sl k = Some (Inr (sl', sv, True)) \<longrightarrow>
      (\<exists>a. stash_search (nat (smaxLevel sl)) k Head None sl = Some (Inr (Some a)) \<and>
           skey (sheap sl a) = k \<and> svalue (sheap sl a) = sv))"
proof (intro conjI impI)
  assume h: "1 \<le> maxLevel list \<and> getPrevElementNodes list k = Some (Inr l1) \<and> prev_next l1 0 = Inr c"
  have ge: "k \<le> key (heap l1 a)" if "c = Some a" for a
    using descend_candidate[of "nat (maxLevel list)" k Head list l1 a] h that
    by (simp add: getPrevElementNodes_def)
  show "is_match l1 c k = (\<exists>a. c = Some a \<and> key (heap l1 a) = k)"
  proof (cases c)
    case None
    then show ?thesis by (simp add: is_match_def)
  next
    case (Some a)
    then show ?thesis using ge[OF Some] by (auto simp: is_match_def)
  qed
  show "\<forall>a. c = Some a \<longrightarrow> k \<le> key (heap l1 a)" using ge by blast
next
  assume g: "Get list k = Some (Inr (v, True))"
  then obtain c where s: "search (nat (maxLevel list)) k Head None list = Some (Inr c)"
    and m: "is_match list c k" and v: "v = value (heap list (the c))"
    unfolding Get_def by (auto split: option.splits sum.splits if_splits)
  obtain a where a: "c = Some a" and le: "key (heap list a) \<le> k"
    using m by (cases c) (auto simp: is_match_def)
  have "k \<le> key (heap list a)" using search_candidate[OF s[unfolded a]] by simp
  then show "\<exists>a. search (nat (maxLevel list)) k Head None list = Some (Inr (Some a)) \<and>
           key (heap list a) = k \<and> value (heap list a) = v"
    using le v a s by auto
next
  assume r: "reachable list"
  show "\<exists>l2. getPrevElementNodes list k = Some (Inr l2) \<and>
            prev_next l2 0 = Inr (find (\<lambda>a. k \<le> key (heap list a)) (level_chain list 0))"
    using r by (rule descent_candidate_reachable)
  let ?xs = "level_chain list 0"
  have inv: "skiplist_inv list ?xs" using r by (rule reachable_elements)
  have "(hit list k ?xs \<noteq> None) = (\<exists>a \<in> set ?xs. key (heap list a) = k)"
    by (auto simp: hit_def find_None_iff)
  then show "\<exists>w found. Get list k = Some (Inr (w, found)) \<and>
            found = (\<exists>a \<in> set ?xs. key (heap list a) = k)"
    unfolding Get_inv[OF inv] by (cases "hit list k ?xs") auto
next
  assume h: "1 \<le> smaxLevel sl \<and> stash_getPrevElementNodes sl k = Some (Inr sl1) \<and> stash_prev_next sl1 0 = Inr sc"
  have ge: "k \<le> skey (sheap sl1 a)" if "sc = Some a" for a
    using stash_descend_candidate[of "nat (smaxLevel sl)" k Head sl sl1 a] h that
    by (simp add: stash_getPrevElementNodes_def)
  show "stash_is_match sl1 sc k = (\<exists>a. sc = Some a \<and> skey (sheap sl1 a) = k)"
  proof (cases sc)
    case None
    then show ?thesis by (simp add: stash_is_match_def)
  next
    case (Some a)
    then show ?thesis using ge[OF Some] by (auto simp: stash_is_match_def)
  qed
  show "\<forall>a. sc = Some a \<longrightarrow> k \<le> skey (sheap sl1 a)" using ge by blast
next
  assume "stash_Get sl k = Some (Inr (sl', sv, True))"
  then show "\<exists>a. stash_search (nat (smaxLevel sl)) k Head None sl = Some (Inr (Some a)) \<and>
           skey (sheap sl a) = k \<and> svalue (sheap sl a) = sv"
    by (cases rule: stash_Get_cases) auto
qed

text \<open>
  The statement above for the key \<open>aa\<close>, which falls between the elements \<open>a\<close> and \<open>b\<close>, and
  for the key \<open>b\<close>.
\<close>

lemma match_is_key_equality_at_two:
  "1 \<le> maxLevel skip_two \<and>
   getPrevElementNodes skip_two ''aa'' = Some (Inr (skip_two\<lparr>prevNodesCache := [Some (Elem 0), Some Head]\<rparr>)) \<and>
   prev_next (skip_two\<lparr>prevNodesCache := [Some (Elem 0), Some Head]\<rparr>) 0 = Inr (Some 1) \<and>
   \<not> is_match (skip_two\<lparr>prevNodesCache := [Some (Elem 0), Some Head]\<rparr>) (Some 1) ''aa'' \<and>
   ''aa'' \<le> key (heap (skip_two\<lparr>prevNodesCache := [Some (Elem 0), Some Head]\<rparr>) 1) \<and>
   key (heap skip_two 1) = ''b'' \<and>
   Get skip_two ''b'' = Some (Inr ([2], True)) \<and>
   (\<exists>a. search (nat (maxLevel skip_two)) ''b'' Head None skip_two = Some (Inr (Some a)) \<and>
        key (heap skip_two a) = ''b'' \<and> value (heap skip_two a) = [2]) \<and>
   reachable skip_two \<and> find (\<lambda>a. ''aa'' \<le> key (heap skip_two a)) (level_chain skip_two 0) = Some 1 \<and>
   (\<exists>l2. getPrevElementNodes skip_two ''aa'' = Some (Inr l2) \<and> prev_next l2 0 = Inr (Some 1)) \<and>
   Get skip_two ''aa'' = Some (Inr ([], False)) \<and>
   1 \<le> smaxLevel stash_two \<and>
   stash_getPrevElementNodes stash_two ''aa'' = Some (Inr (stash_two\<lparr>sprevNodesCache := [Some (Elem 0), Some (Elem 0)]\<rparr>)) \<and>
   stash_prev_next (stash_two\<lparr>sprevNodesCache := [Some (Elem 0), Some (Elem 0)]\<rparr>) 0 = Inr (Some 1) \<and>
   \<not> stash_is_match (stash_two\<lparr>sprevNodesCache := [Some (Elem 0), Some (Elem 0)]\<rparr>) (Some 1) ''aa'' \<and>
   stash_Get stash_two ''b'' = Some (Inr (set_visited stash_two 1 True, [2], True)) \<and>
   (\<exists>a. stash_search (nat (smaxLevel stash_two)) ''b'' Head None stash_two = Some (Inr (Some a)) \<and>
        skey (sheap stash_two a) = ''b'' \<and> svalue (sheap stash_two a) = [2])"
proof -
  let ?l1 = "skip_two\<lparr>prevNodesCache := [Some (Elem 0), Some Head]\<rparr>"
  let ?s1 = "stash_two\<lparr>sprevNodesCache := [Some (Elem 0), Some (Elem 0)]\<rparr>"
  have r2: "run 2 [OpAdd ''a'' [1] (2 ^ 62), OpAdd ''b'' [2] 0] = Some (Inr skip_two)"
    by (simp add: skip_two_def skip_eval)
  have reach: "reachable skip_two" using r2 by (rule run_reachable)
  have b: "1 \<le> maxLevel skip_two" "getPrevElementNodes skip_two ''aa'' = Some (Inr ?l1)"
    "prev_next ?l1 0 = Inr (Some 1)" "key (heap skip_two 1) = ''b''"
    "Get skip_two ''b'' = Some (Inr ([2], True))"
    "find (\<lambda>a. ''aa'' \<le> key (heap skip_two a)) (level_chain skip_two 0) = Some 1"
    "Get skip_two ''aa'' = Some (Inr ([], False))"
    by (simp_all add: skip_two_def skip_eval)
  have st: "1 \<le> smaxLevel stash_two" "stash_getPrevElementNodes stash_two ''aa'' = Some (Inr ?s1)"
    "stash_prev_next ?s1 0 = Inr (Some 1)"
    "stash_Get stash_two ''b'' = Some (Inr (set_visited stash_two 1 True, [2], True))"
    by (simp_all add: stash_two_def stash_result_def stash_eval)
  note t = match_is_key_equality[of skip_two "''aa''" ?l1 "Some 1" "[]" stash_two ?s1 "Some 1"
             "set_visited stash_two 1 True" "[]"]
  note u = match_is_key_equality[of skip_two "''b''" ?l1 "Some 1" "[2]" stash_two ?s1 "Some 1"
             "set_visited stash_two 1 True" "[2]"]
  have k1: "key (heap ?l1 1) \<noteq> ''aa''" using b(4) by simp
  have "\<exists>a. search (nat (maxLevel skip_two)) ''b'' Head None skip_two = Some (Inr (Some a)) \<and>
        key (heap skip_two a) = ''b'' \<and> value (heap skip_two a) = [2]"
    using u b(5) by blast
  moreover have "\<exists>l2. getPrevElementNodes skip_two ''aa'' = Some (Inr l2) \<and> prev_next l2 0 = Inr (Some 1)"
    using t reach b(6) by auto
  moreover
  have "\<not> is_match ?l1 (Some 1) ''aa''"
    using t b(1,2,3) k1 by blast
  moreover have "''aa'' \<le> key (heap ?l1 1)"
    using t b(1,2,3) by blast
  moreover have "skey (sheap ?s1 1) \<noteq> ''aa''"
    by (simp add: stash_two_def stash_result_def stash_eval)
  then have "\<not> stash_is_match ?s1 (Some 1) ''aa''"
    using t st(1,2,3) by blast
  moreover have "\<exists>a. stash_search (nat (smaxLevel stash_two)) ''b'' Head None stash_two = Some (Inr (Some a)) \<and>
        skey (sheap stash_two a) = ''b'' \<and> svalue (sheap stash_two a) = [2]"
    using u st(4) by blast
  ultimately show ?thesis using reach b st by blast
qed

subsection \<open>The baseline index: deletion, levels, round trip, repeated \<open>Add\<close>\<close>

lemma removeAll_middle:
  assumes "distinct (lo @ b # hi)"
  shows "removeAll b (filter P (lo @ b # hi)) = filter P (lo @ hi)"
proof -
  have "b \<notin> set lo" and "b \<notin> set hi" using assms by auto
  then have "removeAll b (lo @ b # hi) = lo @ hi" by simp
  moreover have "removeAll b (filter P (lo @ b # hi)) = filter P (removeAll b (lo @ b # hi))"
    by (simp only: removeAll_filter_not_eq filter_filter conj_commute)
  ultimately show ?thesis by simp
qed

lemma skiplist_Remove:
  assumes "reachable list"
  shows "\<exists>list' e. Remove list k = Some (Inr (list', e)) \<and> reachable list' \<and>
           (if \<exists>a \<in> set (level_chain list 0). key (heap list a) = k
            then \<exists>b. e = Some b \<and> key (heap list b) = k \<and> b \<in> set (level_chain list 0) \<and>
                     Length list' = Length list - 1 \<and>
                     (\<forall>i < nat (maxLevel list). level_chain list' i = removeAll b (level_chain list i))
            else e = None \<and> list'\<lparr>prevNodesCache := prevNodesCache list\<rparr> = list)"
proof -
  let ?xs = "level_chain list 0"
  have inv: "skiplist_inv list ?xs" using assms by (rule reachable_elements)
  have present: "(hit list k ?xs \<noteq> None) = (\<exists>a \<in> set ?xs. key (heap list a) = k)"
    by (auto simp: hit_def find_None_iff)
  show ?thesis
  proof (cases "hit list k ?xs")
    case None
    obtain c where rm: "Remove list k = Some (Inr (list\<lparr>prevNodesCache := c\<rparr>, None))"
      using Remove_miss[OF inv None] by blast
    then have "reachable (list\<lparr>prevNodesCache := c\<rparr>)" using assms reachable_Remove by blast
    then show ?thesis using rm present None by auto
  next
    case (Some b)
    let ?xs' = "lower list k ?xs @ tl (upper list k ?xs)"
    obtain list' where rm: "Remove list k = Some (Inr (list', Some b))"
      and inv': "skiplist_inv list' ?xs'"
      and up: "upper list k ?xs = b # tl (upper list k ?xs)"
      and len: "Length list' = Length list - 1"
      and fr: "frame (list\<lparr>Length := Length list - 1\<rparr>) (list'\<lparr>prevNodesCache := prevNodesCache list\<rparr>)"
      using Remove_hit[OF inv Some] by blast
    have xs: "?xs = lower list k ?xs @ b # tl (upper list k ?xs)"
      using lower_upper[of list k ?xs] up by simp
    have d: "distinct (lower list k ?xs @ b # tl (upper list k ?xs))"
      using inv_distinct[OF inv] xs by simp
    have ml: "maxLevel list' = maxLevel list" and ht: "\<And>a. height list' a = height list a"
      using fr by (simp_all add: frame_def height_def)
    have "level_chain list' i = removeAll b (level_chain list i)" if i: "i < nat (maxLevel list)" for i
    proof -
      have "level_chain list' i = at_level list' i ?xs'"
        using inv' i ml by (intro inv_level_chain) auto
      also have "\<dots> = filter (\<lambda>a. i < height list a) ?xs'" by (simp add: at_level_def ht)
      also have "\<dots> = removeAll b (filter (\<lambda>a. i < height list a) (lower list k ?xs @ b # tl (upper list k ?xs)))"
        by (simp only: removeAll_middle[OF d])
      also have "\<dots> = removeAll b (at_level list i ?xs)"
        unfolding at_level_def using xs by simp
      also have "\<dots> = removeAll b (level_chain list i)"
        using inv_level_chain[OF inv i] by simp
      finally show ?thesis .
    qed
    moreover have "reachable list'" using assms rm reachable_Remove by blast
    moreover have "key (heap list b) = k \<and> b \<in> set ?xs" using hit_key[OF Some] by simp
    ultimately show ?thesis using rm len present Some by auto
  qed
qed

lemma skiplist_levels:
  assumes "reachable list" and "i < nat (maxLevel list)"
  shows "sorted_wrt (\<lambda>a b. key (heap list a) < key (heap list b)) (level_chain list i) \<and>
         (Suc i < nat (maxLevel list) \<longrightarrow> subseq (level_chain list (Suc i)) (level_chain list i)) \<and>
         int (length (level_chain list 0)) = Length list"
proof -
  let ?xs = "level_chain list 0"
  have inv: "skiplist_inv list ?xs" using assms(1) by (rule reachable_elements)
  have s: "sorted_wrt (\<lambda>a b. key (heap list a) < key (heap list b)) ?xs"
    using inv_sorted[OF inv] by (simp add: sorted_wrt_map)
  have "sorted_wrt (\<lambda>a b. key (heap list a) < key (heap list b)) (at_level list i ?xs)"
    unfolding at_level_def using s by (rule sorted_wrt_filter)
  then have 1: "sorted_wrt (\<lambda>a b. key (heap list a) < key (heap list b)) (level_chain list i)"
    using inv_level_chain[OF inv assms(2)] by simp
  have 2: "subseq (level_chain list (Suc i)) (level_chain list i)" if "Suc i < nat (maxLevel list)"
  proof -
    have "level_chain list (Suc i) = filter (\<lambda>a. Suc i < height list a) (level_chain list i)"
      using inv_level_chain[OF inv that] inv_level_chain[OF inv assms(2)] at_level_Suc by simp
    then show ?thesis by simp
  qed
  have 3: "int (length ?xs) = Length list" using inv by (simp add: skiplist_inv_def)
  show ?thesis using 1 2 3 by blast
qed

lemma step_lookup:
  assumes "reachable l" and "\<not> writes x k"
  shows "\<exists>l'. step l x = Some (Inr l') \<and> reachable l' \<and> lookup l' k = lookup l k"
proof -
  have inv: "skiplist_inv l (level_chain l 0)" using assms(1) by (rule reachable_elements)
  show ?thesis
  proof (cases x)
    case (OpAdd k' v r63)
    obtain l' where "Add l k' v r63 = Some (Inr l')" and "lookup l' = (lookup l)(k' \<mapsto> v)"
      using Add_lookup[OF inv, of k' v r63] by blast
    then show ?thesis using OpAdd assms reachable_Add by auto
  next
    case (OpGet k')
    then show ?thesis using Get_lookup[OF inv, of k'] assms(1) by simp
  next
    case (OpRemove k')
    obtain l' e where "Remove l k' = Some (Inr (l', e))" and "lookup l' = (lookup l)(k' := None)"
      using Remove_lookup[OF inv, of k'] by blast
    then show ?thesis using OpRemove assms reachable_Remove by auto
  qed
qed

lemma steps_lookup:
  assumes "reachable l" and "\<forall>x \<in> set ops. \<not> writes x k"
  shows "\<exists>l'. steps ops l = Some (Inr l') \<and> reachable l' \<and> lookup l' k = lookup l k"
  using assms
proof (induction ops arbitrary: l)
  case Nil
  then show ?case by simp
next
  case (Cons x ops)
  obtain l1 where s: "step l x = Some (Inr l1)" and r: "reachable l1" and lk: "lookup l1 k = lookup l k"
    using step_lookup[of l x k] Cons.prems by auto
  obtain l' where "steps ops l1 = Some (Inr l')" and "reachable l'" and "lookup l' k = lookup l1 k"
    using Cons.IH[OF r] Cons.prems(2) by auto
  then show ?case using s lk by auto
qed

lemma skiplist_round_trip:
  assumes "reachable list" and "\<forall>x \<in> set ops. \<not> writes x k"
  shows "\<exists>l1 l2. Add list k v r63 = Some (Inr l1) \<and> steps ops l1 = Some (Inr l2) \<and>
                 Get l2 k = Some (Inr (v, True))"
proof -
  have inv: "skiplist_inv list (level_chain list 0)" using assms(1) by (rule reachable_elements)
  obtain l1 where a: "Add list k v r63 = Some (Inr l1)" and lk: "lookup l1 = (lookup list)(k \<mapsto> v)"
    using Add_lookup[OF inv, of k v r63] by blast
  have r1: "reachable l1" using assms(1) a by (rule reachable_Add)
  obtain l2 where s: "steps ops l1 = Some (Inr l2)" and r2: "reachable l2" and l2: "lookup l2 k = lookup l1 k"
    using steps_lookup[OF r1 assms(2)] by blast
  have "Get l2 k = Some (Inr (v, True))"
    using Get_lookup[OF reachable_elements[OF r2], of k] l2 lk by simp
  then show ?thesis using a s by blast
qed

lemma count_key:
  assumes "distinct (map f xs)" and "a \<in> set xs"
  shows "length (filter (\<lambda>b. f b = f a) xs) = 1"
  using assms
proof (induction xs)
  case Nil
  then show ?case by simp
next
  case (Cons x xs)
  show ?case
  proof (cases "x = a")
    case True
    then have "f a \<notin> f ` set xs" using Cons.prems(1) by simp
    then have "\<And>b. b \<in> set xs \<Longrightarrow> f b \<noteq> f a" by (metis imageI)
    then have "filter (\<lambda>b. f b = f a) xs = []"
      by (simp add: filter_empty_conv)
    then show ?thesis using True by simp
  next
    case False
    then have "f x \<noteq> f a" using Cons.prems by auto
    then show ?thesis using Cons False by auto
  qed
qed

lemma skiplist_Add_twice:
  assumes "reachable list"
  shows "\<exists>l1 l2. Add list k v1 r1 = Some (Inr l1) \<and> Add l1 k v2 r2 = Some (Inr l2) \<and>
                 Length l2 = Length l1 \<and> Get l2 k = Some (Inr (v2, True)) \<and>
                 length (filter (\<lambda>a. key (heap l2 a) = k) (level_chain l2 0)) = 1"
proof -
  have inv: "skiplist_inv list (level_chain list 0)" using assms by (rule reachable_elements)
  obtain l1 where a1: "Add list k v1 r1 = Some (Inr l1)" and lk1: "lookup l1 = (lookup list)(k \<mapsto> v1)"
    using Add_lookup[OF inv, of k v1 r1] by blast
  have r1: "reachable l1" using assms a1 by (rule reachable_Add)
  note inv1 = reachable_elements[OF r1]
  obtain l2 where a2: "Add l1 k v2 r2 = Some (Inr l2)" and lk2: "lookup l2 = (lookup l1)(k \<mapsto> v2)"
    and len: "Length l2 = (if lookup l1 k = None then Length l1 + 1 else Length l1)"
    using Add_lookup[OF inv1, of k v2 r2] by blast
  have r2: "reachable l2" using r1 a2 by (rule reachable_Add)
  note inv2 = reachable_elements[OF r2]
  have g: "Get l2 k = Some (Inr (v2, True))"
    using Get_lookup[OF inv2, of k] lk2 by simp
  have "lookup l2 k = Some v2" using lk2 by simp
  then have "hit l2 k (level_chain l2 0) \<noteq> None"
    unfolding lookup_hit[OF inv2] by (cases "hit l2 k (level_chain l2 0)") auto
  then obtain b where "key (heap l2 b) = k" and "b \<in> set (level_chain l2 0)"
    using hit_key by blast
  moreover have "distinct (map (\<lambda>a. key (heap l2 a)) (level_chain l2 0))"
    using inv_sorted[OF inv2] by (simp add: strict_sorted_iff)
  ultimately have "length (filter (\<lambda>a. key (heap l2 a) = k) (level_chain l2 0)) = 1"
    using count_key[of "\<lambda>a. key (heap l2 a)" "level_chain l2 0" b] by simp
  then show ?thesis using a1 a2 len lk1 g by auto
qed

section \<open>The properties of the two indexes\<close>

text \<open>
  Claim C1: \<open>Remove\<close> of a key that is absent changes nothing and reports that nothing was
  found; \<open>Remove\<close> of a key that is present unlinks its element from every level it
  occupied, leaves all other links as they were, and lowers the length by one.

  The baseline index does this (\<open>skiplist_Remove\<close> above).  The adaptive index does not.  Its
  \<open>Remove\<close> still ranges over the whole link array of the element, which there has
  \<open>maxLevel\<close> slots whatever the element's level, and it relies on predecessors that a
  descent cut short by a demotion has recorded.  On an index of \<open>maxLevel\<close> 2:

  \<^item> after \<open>Add a\<close> at level 1 and \<open>Add b\<close> at level 2, level 0 links \<open>a, b\<close> and level 1 links
    \<open>b\<close>.  \<open>Remove a\<close> then clears the head's link at level 1 as well: \<open>b\<close>, of level 2, is no
    longer linked at level 1.
  \<^item> after \<open>Add a\<close> and \<open>Add b\<close>, both at level 2, \<open>Remove b\<close> leaves \<open>b\<close> linked at level 1,
    while level 0 links \<open>a\<close> only and the length is 1.
\<close>

theorem stash_Remove_breaks_links:
  "observe (\<lambda>l. (stash_level_chain l 0, stash_level_chain l 1))
     (stash_run 2 [OpAdd ''a'' [1] (2 ^ 62), OpAdd ''b'' [2] 0]) = Some (Inr ([0, 1], [1])) \<and>
   observe (\<lambda>l. (stash_level_chain l 0, stash_level_chain l 1, level (sheap l 1)))
     (stash_run 2 [OpAdd ''a'' [1] (2 ^ 62), OpAdd ''b'' [2] 0, OpRemove ''a'']) = Some (Inr ([1], [], 2)) \<and>
   observe (\<lambda>l. (stash_level_chain l 0, stash_level_chain l 1, sLength l))
     (stash_run 2 [OpAdd ''a'' [1] 0, OpAdd ''b'' [2] 0, OpRemove ''b'']) = Some (Inr ([0], [1], 1))"
  by (simp add: stash_eval)

text \<open>
  Claim C2: after any sequence of calls, keys do not decrease along the links of any level,
  and every element linked at a level above 0 is linked at the level below.

  The baseline index keeps both, with strictly increasing keys (\<open>skiplist_levels\<close> above).  The
  adaptive index keeps the first part: keys do not decrease along any of its links
  (\<open>stash_links_ordered\<close> above).  The second part fails there after a \<open>Remove\<close>: after
  \<open>Add a\<close>, \<open>Add b\<close> (both at level 2) and \<open>Remove b\<close> on an index of \<open>maxLevel\<close> 2, the
  elements linked at level 1 are not among those linked at level 0.
\<close>

theorem stash_level_not_nested:
  "observe (\<lambda>l. set (stash_level_chain l 1) \<subseteq> set (stash_level_chain l 0))
     (stash_run 2 [OpAdd ''a'' [1] 0, OpAdd ''b'' [2] 0, OpRemove ''b'']) = Some (Inr False)"
  by (simp add: stash_eval)

text \<open>
  Claim C3, for the adaptive index: no level exceeds \<open>maxLevel\<close>, a promotion needs the
  \<open>visited\<close> flag of the matching element to be set, and a new element is marked visited
  exactly when its drawn level is 1.

  What holds: in every list built from a constructor, the level of every element is at
  most \<open>maxLevel\<close>.  An \<open>Add\<close> raises the level of an element that already existed only if
  that element is the candidate its descent found, matches the key, and had \<open>visited\<close> set
  before the call; the level then grows by one.  \<open>Get\<close> changes no level and \<open>Remove\<close> raises
  none.  An \<open>Add\<close> that creates an element gives it the level that \<open>randLevel\<close> draws and
  sets \<open>visited\<close> exactly when that level is 1.
\<close>

theorem promotion_needs_visited:
  "(stash_reachable l \<longrightarrow> (\<forall>a. level (sheap l a) \<le> smaxLevel l)) \<and>
   (stash_Add l k v r63 = Some (Inr l') \<and> a \<noteq> sallocated l \<and> level (sheap l a) < level (sheap l' a) \<longrightarrow>
      visited (sheap l a) \<and>
      (\<exists>l1. stash_getPrevElementNodes l k = Some (Inr l1) \<and>
            stash_prev_next l1 0 = Inr (Some a) \<and> stash_is_match l1 (Some a) k) \<and>
      level (sheap l' a) \<le> level (sheap l a) + 1) \<and>
   (stash_Get l k = Some (Inr (l', w, found)) \<longrightarrow> level (sheap l' a) = level (sheap l a)) \<and>
   (stash_Remove l k = Some (Inr (l', e)) \<longrightarrow> level (sheap l' a) \<le> level (sheap l a)) \<and>
   (stash_Add l k v r63 = Some (Inr l') \<and> sallocated l' \<noteq> sallocated l \<longrightarrow>
      (\<exists>lvl. stash_randLevel l r63 = Inr lvl \<and> level (sheap l' (sallocated l)) = lvl \<and>
             (visited (sheap l' (sallocated l)) \<longleftrightarrow> lvl = 1)))"
proof (intro conjI impI)
  assume "stash_reachable l"
  then show "\<forall>a. level (sheap l a) \<le> smaxLevel l"
    using stash_reachable_shape by (simp add: stash_shape_def)
next
  assume h: "stash_Add l k v r63 = Some (Inr l') \<and> a \<noteq> sallocated l \<and> level (sheap l a) < level (sheap l' a)"
  note p = stash_Add_promotion[of l k v r63 l' a]
  show "visited (sheap l a)" using p h by blast
  show "\<exists>l1. stash_getPrevElementNodes l k = Some (Inr l1) \<and>
            stash_prev_next l1 0 = Inr (Some a) \<and> stash_is_match l1 (Some a) k"
    using p h by blast
  show "level (sheap l' a) \<le> level (sheap l a) + 1" using p h by blast
next
  assume "stash_Get l k = Some (Inr (l', w, found))"
  then show "level (sheap l' a) = level (sheap l a)" using stash_Get_frame by blast
next
  assume "stash_Remove l k = Some (Inr (l', e))"
  then show "level (sheap l' a) \<le> level (sheap l a)" by (rule stash_Remove_levels)
next
  assume "stash_Add l k v r63 = Some (Inr l') \<and> sallocated l' \<noteq> sallocated l"
  then show "\<exists>lvl. stash_randLevel l r63 = Inr lvl \<and> level (sheap l' (sallocated l)) = lvl \<and>
             (visited (sheap l' (sallocated l)) \<longleftrightarrow> lvl = 1)"
    using stash_Add_fresh_element[of l k v r63 l'] by blast
qed

text \<open>
  The statement above at work: the second \<open>Add b\<close> promotes \<open>b\<close>, whose flag was set; a \<open>Get\<close>
  and a \<open>Remove\<close> of \<open>a\<close> keep the level of \<open>b\<close>; the \<open>Add\<close> that created \<open>b\<close> drew level 1 and
  set the flag.
\<close>

theorem promotion_needs_visited_witness:
  "stash_reachable stash_two \<and> (\<forall>a. level (sheap stash_two a) \<le> smaxLevel stash_two) \<and>
   stash_Add stash_two ''b'' [3] 0 = Some (Inr stash_three) \<and> 1 \<noteq> sallocated stash_two \<and>
   level (sheap stash_two 1) < level (sheap stash_three 1) \<and> visited (sheap stash_two 1) \<and>
   level (sheap stash_three 1) \<le> level (sheap stash_two 1) + 1 \<and>
   stash_Get stash_two ''a'' = Some (Inr (set_visited stash_two 0 True, [1], True)) \<and>
   level (sheap (set_visited stash_two 0 True) 1) = level (sheap stash_two 1) \<and>
   stash_Remove stash_two ''a'' = Some (Inr (stash_four, Some 0)) \<and>
   level (sheap stash_four 1) \<le> level (sheap stash_two 1) \<and>
   stash_Add stash_one ''b'' [2] (2 ^ 62) = Some (Inr stash_two) \<and>
   sallocated stash_two \<noteq> sallocated stash_one \<and>
   stash_randLevel stash_one (2 ^ 62) = Inr 1 \<and> visited (sheap stash_two (sallocated stash_one))"
proof -
  have r2: "stash_run 2 [OpAdd ''a'' [1] 0, OpAdd ''b'' [2] (2 ^ 62)] = Some (Inr stash_two)"
    by (simp add: stash_two_def stash_result_def stash_eval)
  have reach: "stash_reachable stash_two" using r2 by (rule stash_run_reachable)
  have add3: "stash_Add stash_two ''b'' [3] 0 = Some (Inr stash_three)"
    by (simp add: stash_two_def stash_three_def stash_result_def stash_eval)
  have a: "1 \<noteq> sallocated stash_two" and up: "level (sheap stash_two 1) < level (sheap stash_three 1)"
    by (simp_all add: stash_two_def stash_three_def stash_result_def stash_eval)
  have get: "stash_Get stash_two ''a'' = Some (Inr (set_visited stash_two 0 True, [1], True))"
    by (simp add: stash_two_def stash_result_def stash_eval)
  have rm: "stash_Remove stash_two ''a'' = Some (Inr (stash_four, Some 0))"
    by (simp add: stash_two_def stash_four_def stash_result_def stash_eval)
  have add2: "stash_Add stash_one ''b'' [2] (2 ^ 62) = Some (Inr stash_two)"
    by (simp add: stash_one_def stash_two_def stash_result_def stash_eval)
  have al: "sallocated stash_two \<noteq> sallocated stash_one"
    by (simp add: stash_one_def stash_two_def stash_result_def stash_eval)
  have rl: "stash_randLevel stash_one (2 ^ 62) = Inr 1"
    by (simp add: stash_one_def stash_result_def stash_eval)
  note t1 = promotion_needs_visited[of stash_two "''b''" "[3]" 0 stash_three 1 "[]" False None]
  note t2 = promotion_needs_visited[of stash_two "''a''" "[3]" 0 "set_visited stash_two 0 True" 1 "[1]" True None]
  note t3 = promotion_needs_visited[of stash_one "''b''" "[2]" "2 ^ 62" stash_two 1 "[]" False None]
  note t4 = promotion_needs_visited[of stash_two "''a''" "[3]" 0 stash_four 1 "[]" False "Some 0"]
  have "\<forall>a. level (sheap stash_two a) \<le> smaxLevel stash_two" using t1 reach by blast
  moreover have "visited (sheap stash_two 1) \<and> level (sheap stash_three 1) \<le> level (sheap stash_two 1) + 1"
    using t1 add3 a up by blast
  moreover have "level (sheap (set_visited stash_two 0 True) 1) = level (sheap stash_two 1)"
    using t2 get by blast
  moreover have "level (sheap stash_four 1) \<le> level (sheap stash_two 1)"
    using t4 rm by blast
  moreover have "visited (sheap stash_two (sallocated stash_one))"
    using t3 add2 al rl by auto
  ultimately show ?thesis using reach add3 a up get rm add2 al rl by blast
qed

text \<open>
  The flag need not come from an earlier hit: an element created at level 1 carries it from
  its creation, so the first \<open>Add\<close> that hits it promotes it.  Here \<open>b\<close> is created at level
  1 behind \<open>a\<close> of level 2, and the very next \<open>Add b\<close> raises it to level 2.
\<close>

theorem promotion_on_first_hit:
  "observe (\<lambda>l. (level (sheap l 1), visited (sheap l 1), skey (sheap l 1)))
     (stash_run 2 [OpAdd ''a'' [1] 0, OpAdd ''b'' [2] (2 ^ 62)]) = Some (Inr (1, True, ''b'')) \<and>
   observe (\<lambda>l. (level (sheap l 1), stash_level_chain l 1))
     (stash_run 2 [OpAdd ''a'' [1] 0, OpAdd ''b'' [2] (2 ^ 62), OpAdd ''b'' [3] 0]) = Some (Inr (2, [0, 1]))"
  by (simp add: stash_eval)




text \<open>
  Claim C5: the length of an element's link array and the levels the element is linked
  into.

  What holds: in the baseline index, where the participation level of an element is the
  length of its link array, every element of a list built from a constructor has an array
  of length between 1 and \<open>maxLevel\<close> and is linked at level \<open>i\<close> exactly when \<open>i\<close> is below
  that length; \<open>Add\<close> and \<open>Remove\<close> leave the length of every existing array unchanged.  In
  the adaptive index every link array has length \<open>maxLevel\<close>, and the level of an element
  is at most that length.
\<close>

theorem link_array_length:
  "(reachable list \<longrightarrow>
      (\<forall>a \<in> set (level_chain list 0).
          1 \<le> length (next (heap list a)) \<and> int (length (next (heap list a))) \<le> maxLevel list \<and>
          (\<forall>i < nat (maxLevel list). (a \<in> set (level_chain list i)) = (i < length (next (heap list a)))))) \<and>
   (reachable list \<and> Add list k v r63 = Some (Inr list') \<and> a < allocated list \<longrightarrow>
      length (next (heap list' a)) = length (next (heap list a))) \<and>
   (reachable list \<and> Remove list k = Some (Inr (list', e)) \<and> a < allocated list \<longrightarrow>
      length (next (heap list' a)) = length (next (heap list a))) \<and>
   (stash_reachable l \<longrightarrow>
      (\<forall>a < sallocated l. length (snext (sheap l a)) = nat (smaxLevel l) \<and>
                          level (sheap l a) \<le> smaxLevel l))"
proof (intro conjI impI)
  assume r: "reachable list"
  let ?xs = "level_chain list 0"
  have inv: "skiplist_inv list ?xs" using r by (rule reachable_elements)
  show "\<forall>a \<in> set ?xs.
          1 \<le> length (next (heap list a)) \<and> int (length (next (heap list a))) \<le> maxLevel list \<and>
          (\<forall>i < nat (maxLevel list). (a \<in> set (level_chain list i)) = (i < length (next (heap list a))))"
  proof (intro ballI conjI allI impI)
    fix a assume a: "a \<in> set ?xs"
    note e = inv_elem[OF inv a]
    show "1 \<le> length (next (heap list a))" using e by (simp add: height_def)
    show "int (length (next (heap list a))) \<le> maxLevel list" using e by (auto simp: height_def)
    fix i assume "i < nat (maxLevel list)"
    then have "level_chain list i = at_level list i ?xs" using inv by (rule inv_level_chain[rotated])
    then show "(a \<in> set (level_chain list i)) = (i < length (next (heap list a)))"
      using a by (simp add: at_level_def height_def)
  qed
next
  assume h: "reachable list \<and> Add list k v r63 = Some (Inr list') \<and> a < allocated list"
  then have "skiplist_inv list (level_chain list 0)" using reachable_elements by blast
  then have "height list' a = height list a" using h by (intro Add_heights) auto
  then show "length (next (heap list' a)) = length (next (heap list a))" by (simp add: height_def)
next
  assume h: "reachable list \<and> Remove list k = Some (Inr (list', e)) \<and> a < allocated list"
  then have "skiplist_inv list (level_chain list 0)" using reachable_elements by blast
  then have "height list' a = height list a" using h by (intro Remove_heights) auto
  then show "length (next (heap list' a)) = length (next (heap list a))" by (simp add: height_def)
next
  assume "stash_reachable l"
  then have "stash_shape l" by (rule stash_reachable_shape)
  then show "\<forall>a < sallocated l. length (snext (sheap l a)) = nat (smaxLevel l) \<and>
                          level (sheap l a) \<le> smaxLevel l"
    by (simp add: stash_shape_def)
qed

text \<open>The statement above on the lists of \<open>a\<close> and \<open>b\<close>.\<close>

theorem link_array_length_witness:
  "reachable skip_two \<and> level_chain skip_two 0 = [0, 1] \<and> level_chain skip_two 1 = [1] \<and>
   length (next (heap skip_two 0)) = 1 \<and> length (next (heap skip_two 1)) = 2 \<and> maxLevel skip_two = 2 \<and>
   (0 \<in> set (level_chain skip_two 1)) = (1 < length (next (heap skip_two 0))) \<and>
   (1 \<in> set (level_chain skip_two 1)) = (1 < length (next (heap skip_two 1))) \<and>
   reachable skip_one \<and> Add skip_one ''b'' [2] 0 = Some (Inr skip_two) \<and> 0 < allocated skip_one \<and>
   length (next (heap skip_two 0)) = length (next (heap skip_one 0)) \<and>
   Remove skip_two ''a'' = Some (Inr (skip_three, Some 0)) \<and> 1 < allocated skip_two \<and>
   length (next (heap skip_three 1)) = length (next (heap skip_two 1)) \<and>
   stash_reachable stash_two \<and> sallocated stash_two = 2 \<and> smaxLevel stash_two = 2 \<and>
   length (snext (sheap stash_two 0)) = nat (smaxLevel stash_two) \<and>
   length (snext (sheap stash_two 1)) = nat (smaxLevel stash_two) \<and>
   level (sheap stash_two 1) = 1"
proof -
  have r1: "run 2 [OpAdd ''a'' [1] (2 ^ 62)] = Some (Inr skip_one)"
    by (simp add: skip_one_def skip_eval)
  have r2: "run 2 [OpAdd ''a'' [1] (2 ^ 62), OpAdd ''b'' [2] 0] = Some (Inr skip_two)"
    by (simp add: skip_two_def skip_eval)
  have reach1: "reachable skip_one" using r1 by (rule run_reachable)
  have reach2: "reachable skip_two" using r2 by (rule run_reachable)
  have c: "level_chain skip_two 0 = [0, 1]" "level_chain skip_two 1 = [1]"
    "length (next (heap skip_two 0)) = 1" "length (next (heap skip_two 1)) = 2" "maxLevel skip_two = 2"
    by (simp_all add: skip_two_def skip_eval)
  have add: "Add skip_one ''b'' [2] 0 = Some (Inr skip_two)" and al1: "0 < allocated skip_one"
    by (simp_all add: skip_one_def skip_two_def skip_eval)
  have rm: "Remove skip_two ''a'' = Some (Inr (skip_three, Some 0))" and al2: "1 < allocated skip_two"
    by (simp_all add: skip_two_def skip_three_def skip_eval)
  have s2: "stash_run 2 [OpAdd ''a'' [1] 0, OpAdd ''b'' [2] (2 ^ 62)] = Some (Inr stash_two)"
    by (simp add: stash_two_def stash_result_def stash_eval)
  have sreach: "stash_reachable stash_two" using s2 by (rule stash_run_reachable)
  have sal: "sallocated stash_two = 2" "smaxLevel stash_two = 2" "level (sheap stash_two 1) = 1"
    by (simp_all add: stash_two_def stash_result_def stash_eval)
  note t1 = link_array_length[of skip_two "''b''" "[2]" 0 skip_two 0 None stash_two]
  note t2 = link_array_length[of skip_one "''b''" "[2]" 0 skip_two 0 None stash_two]
  note t3 = link_array_length[of skip_two "''a''" "[2]" 0 skip_three 1 "Some 0" stash_two]
  have m: "0 \<in> set (level_chain skip_two 0)" "1 \<in> set (level_chain skip_two 0)"
    "1 < nat (maxLevel skip_two)"
    using c by simp_all
  have "(0 \<in> set (level_chain skip_two 1)) = (1 < length (next (heap skip_two 0)))"
    using t1 reach2 m(1,3) by blast
  moreover have "(1 \<in> set (level_chain skip_two 1)) = (1 < length (next (heap skip_two 1)))"
    using t1 reach2 m(2,3) by blast
  moreover have "length (next (heap skip_two 0)) = length (next (heap skip_one 0))"
    using t2 reach1 add al1 by blast
  moreover have "length (next (heap skip_three 1)) = length (next (heap skip_two 1))"
    using t3 reach2 rm al2 by blast
  moreover have "length (snext (sheap stash_two 0)) = nat (smaxLevel stash_two)"
    using t1 sreach sal(1) by simp
  moreover have "length (snext (sheap stash_two 1)) = nat (smaxLevel stash_two)"
    using t1 sreach sal(1) by simp
  ultimately show ?thesis using reach1 reach2 c add al1 rm al2 sreach sal by blast
qed

text \<open>
  In the adaptive index the link array is allocated with \<open>maxLevel\<close> slots, so that a
  promotion finds a slot to fill: an element of level 1 in an index of \<open>maxLevel\<close> 2 has an
  array of length 2.
\<close>

theorem stash_array_longer_than_level:
  "observe (\<lambda>l. (level (sheap l 0), length (snext (sheap l 0))))
     (stash_run 2 [OpAdd ''a'' [1] (2 ^ 62)]) = Some (Inr (1, 2))"
  by (simp add: stash_eval)

text \<open>
  Claim C6: a key that was added and neither removed nor overwritten since is found by
  \<open>Get\<close>, with the value added, whatever calls on other keys came in between.

  The baseline index does this (\<open>skiplist_round_trip\<close> above).  In the adaptive index a
  \<open>Remove\<close> of another key can cut an element off: on an index of \<open>maxLevel\<close> 2, with every
  element drawn at level 2, the calls \<open>Add b\<close>, \<open>Add c\<close>, \<open>Remove c\<close>, \<open>Add e\<close>, \<open>Remove b\<close>
  leave a list in which \<open>Get e\<close> finds nothing.
\<close>

theorem stash_Get_loses_key:
  "then_Get (stash_run 2 [OpAdd ''b'' [1] 0, OpAdd ''c'' [2] 0, OpRemove ''c'',
                          OpAdd ''e'' [3] 0, OpRemove ''b'']) ''e'' = Some (Inr ([], False))"
  by (simp add: stash_eval)

text \<open>
  Claim C7: \<open>Add\<close> of a key twice leaves one element for the key, with the second value, and
  the second call leaves the length unchanged.

  The baseline index does this (\<open>skiplist_Add_twice\<close> above).  In the adaptive index, after
  \<open>Add c\<close>, \<open>Add d\<close>, \<open>Remove d\<close> and \<open>Add e\<close> on an index of \<open>maxLevel\<close> 2 (every element drawn
  at level 2) the length is 2.  An \<open>Add e\<close> with the value 4 finds the element and keeps the
  length; the \<open>Add e\<close> with the value 5 that follows does not find it and creates a second
  element for \<open>e\<close>: the length is 3, and level 1 links two elements with the key \<open>e\<close>, one
  with the value 5 and one with the value 4.
\<close>

theorem stash_Add_twice_duplicates:
  "observe sLength (stash_run 2 [OpAdd ''c'' [1] 0, OpAdd ''d'' [2] 0, OpRemove ''d'',
                      OpAdd ''e'' [3] 0]) = Some (Inr 2) \<and>
   observe sLength (stash_run 2 [OpAdd ''c'' [1] 0, OpAdd ''d'' [2] 0, OpRemove ''d'',
                      OpAdd ''e'' [3] 0, OpAdd ''e'' [4] 0]) = Some (Inr 2) \<and>
   observe (\<lambda>l. (sLength l, map (\<lambda>a. (skey (sheap l a), svalue (sheap l a))) (stash_level_chain l 1)))
     (stash_run 2 [OpAdd ''c'' [1] 0, OpAdd ''d'' [2] 0, OpRemove ''d'',
                   OpAdd ''e'' [3] 0, OpAdd ''e'' [4] 0, OpAdd ''e'' [5] 0])
     = Some (Inr (3, [(''e'', [5]), (''e'', [4])]))"
  by (simp add: stash_eval)

text \<open>
  Claim C8: the descent leaves as candidate the first element of level 0 whose key is not
  below the search key, so that the match test, candidate key \<open><=\<close> search key, holds
  exactly for an element with the search key.

  The baseline index does this (\<open>match_is_key_equality\<close> above).  In the adaptive index the
  match test still amounts to equality of the keys, but the candidate need not be the first
  such element of level 0, and an element with the search key can be missed.  On an index
  of \<open>maxLevel\<close> 2, every element drawn at level 2:

  \<^item> after \<open>Add b\<close>, \<open>Add c\<close>, \<open>Remove c\<close>, \<open>Add e\<close>, level 0 links \<open>b\<close> alone, so no element
    of level 0 has a key that is not below \<open>e\<close>; yet the descent for \<open>e\<close> leaves the element
    of \<open>e\<close> as candidate, and \<open>Get e\<close> reports a hit.
  \<^item> after \<open>Add c\<close>, \<open>Add d\<close>, \<open>Remove d\<close>, \<open>Add e\<close>, \<open>Add e\<close>, the head links the element
    of \<open>e\<close> at level 1, and \<open>Get e\<close> finds nothing.
\<close>

theorem stash_candidate_not_first:
  "observe (\<lambda>l. map (\<lambda>a. skey (sheap l a)) (stash_level_chain l 0))
     (stash_run 2 [OpAdd ''b'' [1] 0, OpAdd ''c'' [2] 0, OpRemove ''c'', OpAdd ''e'' [3] 0])
     = Some (Inr [''b'']) \<and>
   observe (\<lambda>l. stash_prev_next l 0)
     (then_descent (stash_run 2 [OpAdd ''b'' [1] 0, OpAdd ''c'' [2] 0, OpRemove ''c'',
                                 OpAdd ''e'' [3] 0]) ''e'')
     = Some (Inr (Inr (Some 2))) \<and>
   then_Get (stash_run 2 [OpAdd ''b'' [1] 0, OpAdd ''c'' [2] 0, OpRemove ''c'', OpAdd ''e'' [3] 0]) ''e''
     = Some (Inr ([3], True)) \<and>
   observe (\<lambda>l. map (\<lambda>a. (skey (sheap l a), svalue (sheap l a))) (stash_level_chain l 1))
     (stash_run 2 [OpAdd ''c'' [1] 0, OpAdd ''d'' [2] 0, OpRemove ''d'',
                   OpAdd ''e'' [3] 0, OpAdd ''e'' [4] 0])
     = Some (Inr [(''e'', [4])]) \<and>
   then_Get (stash_run 2 [OpAdd ''c'' [1] 0, OpAdd ''d'' [2] 0, OpRemove ''d'',
                          OpAdd ''e'' [3] 0, OpAdd ''e'' [4] 0]) ''e''
     = Some (Inr ([], False))"
  by (simp add: stash_eval)

text \<open>
  Claim C9: \<open>NewWithMaxLevel\<close> panics when \<open>maxLevel\<close> is below 1 or above 64; otherwise it
  returns an empty index of that \<open>maxLevel\<close> with probability \<open>1 / e\<close>; the default
  constructors use \<open>maxLevel\<close> 18.  This holds for both packages.
\<close>

theorem constructor_range:
  "(m < 1 \<or> 64 < m \<longrightarrow>
      NewWithMaxLevel m = Inl (Panic ''maxLevel for a SkipList must be a positive integer <= 64'') \<and>
      stash_NewWithMaxLevel m = Inl (Panic ''maxLevel for a StashList must be a positive integer <= 64'')) \<and>
   (1 \<le> m \<and> m \<le> 64 \<longrightarrow>
      (\<exists>list. NewWithMaxLevel m = Inr list \<and> maxLevel list = m \<and> probability list = 1 / exp 1 \<and>
              Length list = 0 \<and> next list = replicate (nat m) None \<and> reachable list) \<and>
      (\<exists>list. stash_NewWithMaxLevel m = Inr list \<and> smaxLevel list = m \<and> sprobability list = 1 / exp 1 \<and>
              sLength list = 0 \<and> snext list = replicate (nat m) None \<and> stash_reachable list)) \<and>
   NewSkipList = NewWithMaxLevel 18 \<and> NewStashList = stash_NewWithMaxLevel 18"
proof (intro conjI impI)
  assume "m < 1 \<or> 64 < m"
  then show "NewWithMaxLevel m = Inl (Panic ''maxLevel for a SkipList must be a positive integer <= 64'')"
    and "stash_NewWithMaxLevel m = Inl (Panic ''maxLevel for a StashList must be a positive integer <= 64'')"
    by (auto simp: NewWithMaxLevel_def stash_NewWithMaxLevel_def)
next
  assume m: "1 \<le> m \<and> m \<le> 64"
  then obtain list where n: "NewWithMaxLevel m = Inr list"
    by (auto simp: NewWithMaxLevel_def)
  then have "maxLevel list = m \<and> probability list = 1 / exp 1 \<and> Length list = 0 \<and>
             next list = replicate (nat m) None"
    using m by (auto simp: NewWithMaxLevel_def DefaultProbability_def)
  then show "\<exists>list. NewWithMaxLevel m = Inr list \<and> maxLevel list = m \<and> probability list = 1 / exp 1 \<and>
              Length list = 0 \<and> next list = replicate (nat m) None \<and> reachable list"
    using n reachable_New by blast
  obtain sl where sn: "stash_NewWithMaxLevel m = Inr sl"
    using m by (auto simp: stash_NewWithMaxLevel_def)
  then have "smaxLevel sl = m \<and> sprobability sl = 1 / exp 1 \<and> sLength sl = 0 \<and>
             snext sl = replicate (nat m) None"
    using m by (auto simp: stash_NewWithMaxLevel_def DefaultProbability_def)
  then show "\<exists>list. stash_NewWithMaxLevel m = Inr list \<and> smaxLevel list = m \<and> sprobability list = 1 / exp 1 \<and>
              sLength list = 0 \<and> snext list = replicate (nat m) None \<and> stash_reachable list"
    using sn stash_reachable_New by blast
next
  show "NewSkipList = NewWithMaxLevel 18" by (simp add: NewSkipList_def DefaultMaxLevel_def)
  show "NewStashList = stash_NewWithMaxLevel 18" by (simp add: NewStashList_def DefaultMaxLevel_def)
qed

text \<open>The statement above at 0, 65, 18, 64 and 1.\<close>

theorem constructor_range_witness:
  "NewWithMaxLevel 0 = Inl (Panic ''maxLevel for a SkipList must be a positive integer <= 64'') \<and>
   stash_NewWithMaxLevel 65 = Inl (Panic ''maxLevel for a StashList must be a positive integer <= 64'') \<and>
   (\<exists>list. NewSkipList = Inr list \<and> maxLevel list = 18 \<and> probability list = 1 / exp 1) \<and>
   (\<exists>list. NewStashList = Inr list \<and> smaxLevel list = 18 \<and> sprobability list = 1 / exp 1) \<and>
   (\<exists>list. NewWithMaxLevel 64 = Inr list \<and> maxLevel list = 64) \<and>
   (\<exists>list. stash_NewWithMaxLevel 1 = Inr list \<and> smaxLevel list = 1)"
proof -
  have "NewWithMaxLevel 0 = Inl (Panic ''maxLevel for a SkipList must be a positive integer <= 64'')"
    using constructor_range[of 0] by simp
  moreover have "stash_NewWithMaxLevel 65 = Inl (Panic ''maxLevel for a StashList must be a positive integer <= 64'')"
    using constructor_range[of 65] by simp
  moreover have "\<exists>list. NewSkipList = Inr list \<and> maxLevel list = 18 \<and> probability list = 1 / exp 1"
    using constructor_range[of 18] by auto
  moreover have "\<exists>list. NewStashList = Inr list \<and> smaxLevel list = 18 \<and> sprobability list = 1 / exp 1"
    using constructor_range[of 18] by auto
  moreover have "\<exists>list. NewWithMaxLevel 64 = Inr list \<and> maxLevel list = 64"
    using constructor_range[of 64] by auto
  moreover have "\<exists>list. stash_NewWithMaxLevel 1 = Inr list \<and> smaxLevel list = 1"
    using constructor_range[of 1] by auto
  ultimately show ?thesis by blast
qed

end
